theory Spec2Isabelle
  imports Main "HOL-Library.Word"
begin

unbundle bit_operations_syntax

section \<open>Text as the store sees it\<close>

text \<open>
  The client (\<^verbatim>\<open>client/src/stores/appStore.js\<close>) reads a response body as chunks of
  bytes (\<^verbatim>\<open>Uint8Array\<close>) and works on JavaScript strings, which are sequences of
  UTF-16 code units. Both are modelled as lists of words.
\<close>

type_synonym byte = "8 word"
type_synonym jschar = "16 word"
type_synonym jsstring = "jschar list"

text \<open>An ASCII literal of the source as a JavaScript string.\<close>

definition js :: "string \<Rightarrow> jsstring" where
  "js s = map of_char s"

text \<open>
  JavaScript truthiness of a value that is either absent (\<^verbatim>\<open>undefined\<close>, \<^verbatim>\<open>null\<close>) or a
  string: only a non-empty string is truthy.
\<close>

fun truthy :: "jsstring option \<Rightarrow> bool" where
  "truthy None = False"
| "truthy (Some s) = (s \<noteq> [])"

text \<open>\<^verbatim>\<open>line.startsWith(p)\<close>, \<^verbatim>\<open>line.slice(n)\<close> for \<open>n \<ge> 0\<close>.\<close>

definition startsWith :: "jsstring \<Rightarrow> jsstring \<Rightarrow> bool" where
  "startsWith line p = (take (length p) line = p)"

definition slice_js :: "nat \<Rightarrow> jsstring \<Rightarrow> jsstring" where
  "slice_js n line = drop n line"

text \<open>
  \<^verbatim>\<open>String.prototype.trim\<close> removes the code units of ECMAScript's WhiteSpace and
  LineTerminator productions from both ends.
\<close>

definition is_white :: "jschar \<Rightarrow> bool" where
  "is_white c =
     (c = 0x09 \<or> c = 0x0A \<or> c = 0x0B \<or> c = 0x0C \<or> c = 0x0D \<or> c = 0x20 \<or> c = 0xA0
      \<or> c = 0x1680 \<or> (0x2000 \<le> c \<and> c \<le> 0x200A) \<or> c = 0x2028 \<or> c = 0x2029
      \<or> c = 0x202F \<or> c = 0x205F \<or> c = 0x3000 \<or> c = 0xFEFF)"

definition trim :: "jsstring \<Rightarrow> jsstring" where
  "trim s = rev (dropWhile is_white (rev (dropWhile is_white s)))"

text \<open>
  \<^verbatim>\<open>s.split('\n')\<close>: the pieces between line feeds. The result is never empty: a string
  without a line feed is its own single piece, and a string ending in a line feed has an
  empty last piece.
\<close>

fun split_nl :: "jsstring \<Rightarrow> jsstring list" where
  "split_nl [] = [[]]"
| "split_nl (c # cs) =
     (if c = 0x0A then [] # split_nl cs
      else (case split_nl cs of [] \<Rightarrow> [[c]] | l # ls \<Rightarrow> (c # l) # ls))"

section \<open>The platform's text decoder\<close>

text \<open>
  \<^verbatim>\<open>new TextDecoder()\<close> is the UTF-8 decoder of the Encoding standard in replacement
  mode. Its state is the partial code point, the count of continuation bytes seen and
  needed, and the bounds the next continuation byte must lie in.
\<close>

record utf8 =
  code_point :: nat
  bytes_seen :: nat
  bytes_needed :: nat
  lower_boundary :: byte
  upper_boundary :: byte

definition utf8_new :: utf8 where
  "utf8_new = \<lparr>code_point = 0, bytes_seen = 0, bytes_needed = 0,
               lower_boundary = 0x80, upper_boundary = 0xBF\<rparr>"

text \<open>A byte read when no continuation byte is expected. An error emits U+FFFD.\<close>

definition utf8_lead :: "utf8 \<Rightarrow> byte \<Rightarrow> utf8 \<times> nat list" where
  "utf8_lead d b =
     (if b \<le> 0x7F then (d, [unat b])
      else if 0xC2 \<le> b \<and> b \<le> 0xDF then
        (d\<lparr>bytes_needed := 1, code_point := unat (b AND 0x1F)\<rparr>, [])
      else if 0xE0 \<le> b \<and> b \<le> 0xEF then
        (d\<lparr>lower_boundary := (if b = 0xE0 then 0xA0 else lower_boundary d),
           upper_boundary := (if b = 0xED then 0x9F else upper_boundary d),
           bytes_needed := 2, code_point := unat (b AND 0xF)\<rparr>, [])
      else if 0xF0 \<le> b \<and> b \<le> 0xF4 then
        (d\<lparr>lower_boundary := (if b = 0xF0 then 0x90 else lower_boundary d),
           upper_boundary := (if b = 0xF4 then 0x8F else upper_boundary d),
           bytes_needed := 3, code_point := unat (b AND 0x7)\<rparr>, [])
      else (d, [0xFFFD]))"

text \<open>
  One byte through the decoder. A byte outside the bounds ends the pending sequence with
  an error and is read again as a lead byte.
\<close>

definition utf8_handler :: "utf8 \<Rightarrow> byte \<Rightarrow> utf8 \<times> nat list" where
  "utf8_handler d b =
     (if bytes_needed d = 0 then utf8_lead d b
      else if b < lower_boundary d \<or> upper_boundary d < b then
        (let (d', out) = utf8_lead utf8_new b in (d', 0xFFFD # out))
      else
        (let d1 = d\<lparr>lower_boundary := 0x80, upper_boundary := 0xBF,
                     code_point := code_point d * 64 + unat (b AND 0x3F),
                     bytes_seen := bytes_seen d + 1\<rparr>
         in if bytes_seen d1 \<noteq> bytes_needed d1 then (d1, [])
            else (d1\<lparr>code_point := 0, bytes_needed := 0, bytes_seen := 0\<rparr>,
                  [code_point d1])))"

fun utf8_run :: "utf8 \<Rightarrow> byte list \<Rightarrow> utf8 \<times> nat list" where
  "utf8_run d [] = (d, [])"
| "utf8_run d (b # bs) =
     (let (d1, o1) = utf8_handler d b; (d2, o2) = utf8_run d1 bs in (d2, o1 @ o2))"

text \<open>End of input: a pending sequence is an error.\<close>

definition utf8_end :: "utf8 \<Rightarrow> utf8 \<times> nat list" where
  "utf8_end d = (if bytes_needed d \<noteq> 0 then (d\<lparr>bytes_needed := 0\<rparr>, [0xFFFD]) else (d, []))"

text \<open>A code point as UTF-16 code units.\<close>

definition utf16 :: "nat \<Rightarrow> jsstring" where
  "utf16 cp =
     (if cp < 0x10000 then [of_nat cp]
      else [of_nat (0xD800 + (cp - 0x10000) div 0x400),
            of_nat (0xDC00 + (cp - 0x10000) mod 0x400)])"

text \<open>
  The decoder object: the UTF-8 state, whether the first code point has been seen (a
  leading U+FEFF is dropped), and whether the last call asked not to flush.
\<close>

record TextDecoder =
  decoder :: utf8
  BOM_seen :: bool
  do_not_flush :: bool

definition TextDecoder_new :: TextDecoder where
  "TextDecoder_new = \<lparr>decoder = utf8_new, BOM_seen = False, do_not_flush = False\<rparr>"

fun serialize :: "bool \<Rightarrow> nat list \<Rightarrow> bool \<times> jsstring" where
  "serialize seen [] = (seen, [])"
| "serialize seen (i # is) =
     (if \<not> seen \<and> i = 0xFEFF then serialize True is
      else (let (seen', out) = serialize True is in (seen', utf16 i @ out)))"

text \<open>\<^verbatim>\<open>decoder.decode(value, { stream })\<close>.\<close>

definition decode :: "bool \<Rightarrow> TextDecoder \<Rightarrow> byte list \<Rightarrow> TextDecoder \<times> jsstring" where
  "decode stream td val =
     (let td1 = (if do_not_flush td then td else TextDecoder_new);
          (d1, o1) = utf8_run (decoder td1) val;
          (d2, o2) = (if stream then (d1, []) else utf8_end d1);
          (seen, out) = serialize (BOM_seen td1) (o1 @ o2)
      in (\<lparr>decoder = d2, BOM_seen = seen, do_not_flush = stream\<rparr>, out))"

section \<open>The store\<close>

text \<open>
  The fields of the store that the streaming actions read or write. A message keeps the
  keys the actions touch; \<^verbatim>\<open>isError\<close> absent reads as false, \<^verbatim>\<open>image_url\<close> absent as
  \<open>None\<close>. An entry of \<^verbatim>\<open>sessionImages\<close> is \<^verbatim>\<open>{ url, messageId }\<close>.
\<close>

datatype role = User | Assistant

record message =
  m_id :: jsstring
  m_role :: role
  m_content :: jsstring
  m_timestamp :: jsstring
  m_image_url :: "jsstring option"
  m_isError :: bool

record image =
  img_url :: jsstring
  img_messageId :: jsstring

record session =
  s_id :: jsstring

record store =
  sessions :: "session list"
  activeSession :: "session option"
  messages :: "message list"
  isStreaming :: bool
  agentStage :: "jsstring option"
  directorOutput :: jsstring
  paintDirectorOutput :: jsstring
  showDirectorPopup :: bool
  showPaintDirectorPopup :: bool
  sessionImages :: "image list"

text \<open>
  A parsed frame. \<^verbatim>\<open>JSON.parse\<close> is the platform's; the actions take it as a parameter
  \<open>P\<close> that gives, for a payload, the fields the handlers read, with the types of the wire
  contract (strings, and a boolean \<^verbatim>\<open>done\<close>), or \<open>None\<close> when the \<^verbatim>\<open>try\<close> block
  throws before its first \<^verbatim>\<open>set\<close> (a syntax error, or a property read on \<^verbatim>\<open>null\<close>).
\<close>

record event =
  ev_stage :: "jsstring option"
  ev_type :: "jsstring option"
  ev_content :: "jsstring option"
  ev_prompt :: "jsstring option"
  ev_url :: "jsstring option"
  ev_message_id :: "jsstring option"
  ev_done :: bool
  ev_processed_content :: "jsstring option"
  ev_error :: "jsstring option"

type_synonym parser = "jsstring \<Rightarrow> event option"

text \<open>The prefix of the template literal that shows an error: U+26A0 U+FE0F and \<^verbatim>\<open> Error: \<close>.\<close>

definition error_text :: "jsstring \<Rightarrow> jsstring" where
  "error_text e = [0x26A0, 0xFE0F] @ js '' Error: '' @ e"

text \<open>The store as it is created (lines 28 to 45).\<close>

definition store_init :: store where
  "store_init = \<lparr>sessions = [], activeSession = None, messages = [], isStreaming = False,
                 agentStage = None, directorOutput = [], paintDirectorOutput = [],
                 showDirectorPopup = False, showPaintDirectorPopup = False,
                 sessionImages = []\<rparr>"

section \<open>sendMessage\<close>

text \<open>The variables \<^verbatim>\<open>assistantContent\<close> and \<^verbatim>\<open>assistantMsgId\<close> of one call.\<close>

record sm_vars =
  assistantContent :: jsstring
  assistantMsgId :: jsstring

text \<open>
  The body of the \<^verbatim>\<open>try\<close> block for a parsed event (lines 352 to 466), one definition
  for each \<^verbatim>\<open>if\<close> of the source, in its order.
\<close>

text \<open>Lines 352 to 362: \<^verbatim>\<open>if (event.stage)\<close>.\<close>

definition on_stage :: "event \<Rightarrow> store \<Rightarrow> store" where
  "on_stage ev st =
     (if truthy (ev_stage ev) then
        (let a = st\<lparr>agentStage := ev_stage ev\<rparr>;
             b = (if ev_stage ev = Some (js ''director'')
                  then a\<lparr>showDirectorPopup := True, directorOutput := []\<rparr> else a)
         in (if ev_stage ev = Some (js ''paint_director'')
             then b\<lparr>showPaintDirectorPopup := True, paintDirectorOutput := []\<rparr> else b))
      else st)"

text \<open>Lines 386 to 388: the final image prompt.\<close>

definition on_image_prompt :: "event \<Rightarrow> sm_vars \<times> store \<Rightarrow> sm_vars \<times> store" where
  "on_image_prompt ev = (\<lambda>(v, st).
     if ev_type ev = Some (js ''image'') \<and> truthy (ev_prompt ev)
     then (v, st\<lparr>paintDirectorOutput := the (ev_prompt ev)\<rparr>) else (v, st))"

text \<open>Lines 391 to 400: the writer's content.\<close>

definition on_content :: "event \<Rightarrow> sm_vars \<times> store \<Rightarrow> sm_vars \<times> store" where
  "on_content ev = (\<lambda>(v, st).
     if ev_type ev = Some (js ''content'') \<and> truthy (ev_content ev) then
       (let v' = v\<lparr>assistantContent := assistantContent v @ the (ev_content ev)\<rparr>
        in (v', st\<lparr>messages := map (\<lambda>m. if m_id m = assistantMsgId v'
                          then m\<lparr>m_content := assistantContent v'\<rparr> else m)
                        (messages st)\<rparr>))
     else (v, st))"

text \<open>Lines 403 to 412: the image.\<close>

definition on_image_url :: "event \<Rightarrow> sm_vars \<times> store \<Rightarrow> sm_vars \<times> store" where
  "on_image_url ev = (\<lambda>(v, st).
     if ev_type ev = Some (js ''image'') \<and> truthy (ev_url ev) then
       (v, st\<lparr>sessionImages := sessionImages st @
                 [\<lparr>img_url = the (ev_url ev), img_messageId = assistantMsgId v\<rparr>],
               messages := map (\<lambda>m. if m_id m = assistantMsgId v
                          then m\<lparr>m_image_url := ev_url ev\<rparr> else m)
                        (messages st)\<rparr>)
     else (v, st))"

text \<open>Lines 415 to 423: the processed content as an event of its own.\<close>

definition on_processed_content :: "event \<Rightarrow> sm_vars \<times> store \<Rightarrow> sm_vars \<times> store" where
  "on_processed_content ev = (\<lambda>(v, st).
     if ev_type ev = Some (js ''processed_content'') \<and> truthy (ev_content ev) then
       (v, st\<lparr>messages := map (\<lambda>m. if m_id m = assistantMsgId v
                          then m\<lparr>m_content := the (ev_content ev)\<rparr> else m)
                        (messages st)\<rparr>)
     else (v, st))"

text \<open>Lines 425 to 436: the server's id for the message.\<close>

definition on_message_id :: "event \<Rightarrow> sm_vars \<times> store \<Rightarrow> sm_vars \<times> store" where
  "on_message_id ev = (\<lambda>(v, st).
     if truthy (ev_message_id ev) \<and> ev_message_id ev \<noteq> Some (assistantMsgId v) then
       (let oldId = assistantMsgId v;
            v' = v\<lparr>assistantMsgId := the (ev_message_id ev)\<rparr>
        in (v', st\<lparr>messages := map (\<lambda>m. if m_id m = oldId
                          then m\<lparr>m_id := assistantMsgId v'\<rparr> else m)
                        (messages st)\<rparr>))
     else (v, st))"

text \<open>Lines 438 to 453: \<^verbatim>\<open>if (event.done)\<close>.\<close>

definition on_done :: "event \<Rightarrow> sm_vars \<times> store \<Rightarrow> sm_vars \<times> store" where
  "on_done ev = (\<lambda>(v, st).
     if ev_done ev then
       (if truthy (ev_processed_content ev) then
          (v, st\<lparr>messages := map (\<lambda>m. if m_id m = assistantMsgId v
                             then m\<lparr>m_content := the (ev_processed_content ev)\<rparr> else m)
                           (messages st),
                  isStreaming := False, agentStage := None\<rparr>)
        else (v, st\<lparr>isStreaming := False, agentStage := None\<rparr>))
     else (v, st))"

text \<open>Lines 455 to 466: \<^verbatim>\<open>if (event.error)\<close>.\<close>

definition on_error :: "event \<Rightarrow> sm_vars \<times> store \<Rightarrow> sm_vars \<times> store" where
  "on_error ev = (\<lambda>(v, st).
     if truthy (ev_error ev) then
       (v, st\<lparr>messages := map (\<lambda>m. if m_id m = assistantMsgId v
                          then m\<lparr>m_content := error_text (the (ev_error ev)),
                                 m_isError := True\<rparr> else m)
                        (messages st),
               isStreaming := False, agentStage := None\<rparr>)
     else (v, st))"

text \<open>
  The whole body. The three \<^verbatim>\<open>continue\<close> statements (lines 365 to 383) are the three
  early results.
\<close>

definition sm_event :: "event \<Rightarrow> sm_vars \<times> store \<Rightarrow> sm_vars \<times> store" where
  "sm_event ev = (\<lambda>(v, st).
     let st1 = on_stage ev st
     in
     if ev_type ev = Some (js ''director_chunk'') \<and> truthy (ev_content ev) then
       (v, st1\<lparr>directorOutput := directorOutput st1 @ the (ev_content ev)\<rparr>)
     else if ev_type ev = Some (js ''outline'') then
       (v, if truthy (ev_content ev) then st1\<lparr>directorOutput := the (ev_content ev)\<rparr> else st1)
     else if ev_type ev = Some (js ''paint_chunk'') \<and> truthy (ev_content ev) then
       (v, st1\<lparr>paintDirectorOutput := paintDirectorOutput st1 @ the (ev_content ev)\<rparr>)
     else
       on_error ev (on_done ev (on_message_id ev (on_processed_content ev
         (on_image_url ev (on_content ev (on_image_prompt ev (v, st1))))))))"

text \<open>The \<^verbatim>\<open>try\<close>/\<^verbatim>\<open>catch\<close> around it: a payload that does not parse changes nothing.\<close>

definition sm_try :: "parser \<Rightarrow> jsstring \<Rightarrow> sm_vars \<times> store \<Rightarrow> sm_vars \<times> store" where
  "sm_try P d s = (case P d of None \<Rightarrow> s | Some ev \<Rightarrow> sm_event ev s)"

text \<open>
  One line of the \<^verbatim>\<open>for\<close> loop (lines 343 to 470), with the \<^verbatim>\<open>try\<close> block as the
  handler \<open>h\<close> of a payload.
\<close>

definition sm_line :: "(jsstring \<Rightarrow> 's \<Rightarrow> 's) \<Rightarrow> jsstring \<Rightarrow> 's \<Rightarrow> 's" where
  "sm_line h line s =
     (if \<not> startsWith line (js ''data: '') then s
      else (let d = trim (slice_js 6 line)
            in if d = js ''[DONE]'' \<or> d = [] then s else h d s))"

text \<open>The reader's variables: the decoder and \<^verbatim>\<open>buffer\<close>.\<close>

record sm_reader =
  sm_decoder :: TextDecoder
  buffer :: jsstring

definition sm_reader_new :: sm_reader where
  "sm_reader_new = \<lparr>sm_decoder = TextDecoder_new, buffer = []\<rparr>"

text \<open>
  One turn of the \<^verbatim>\<open>while\<close> loop for a chunk that \<^verbatim>\<open>reader.read()\<close> delivered (lines
  336 to 470). \<^verbatim>\<open>lines.pop() || ''\<close> is the last piece, and the empty string were there
  none.
\<close>

definition sm_chunk :: "(jsstring \<Rightarrow> 's \<Rightarrow> 's) \<Rightarrow> byte list \<Rightarrow> sm_reader \<times> 's \<Rightarrow> sm_reader \<times> 's" where
  "sm_chunk h val = (\<lambda>(r, s).
     let (td, text) = decode True (sm_decoder r) val;
         buf = buffer r @ text;
         lines = split_nl buf
     in (\<lparr>sm_decoder = td, buffer = (if lines = [] then [] else last lines)\<rparr>,
         fold (sm_line h) (butlast lines) s))"

definition sm_loop :: "(jsstring \<Rightarrow> 's \<Rightarrow> 's) \<Rightarrow> byte list list \<Rightarrow> sm_reader \<times> 's \<Rightarrow> sm_reader \<times> 's" where
  "sm_loop h chunks = fold (sm_chunk h) chunks"

text \<open>
  The payloads that reach \<^verbatim>\<open>JSON.parse\<close>, in order: the loop run with a handler that
  records its argument.
\<close>

definition sm_frames :: "byte list list \<Rightarrow> jsstring list" where
  "sm_frames chunks = snd (sm_loop (\<lambda>d ds. ds @ [d]) chunks (sm_reader_new, []))"

text \<open>
  What \<^verbatim>\<open>fetch\<close> and the body's reader deliver to one call: a rejection with the error's
  message, or a response with its status and its chunks, after which \<^verbatim>\<open>reader.read()\<close>
  reports the end or throws.
\<close>

record response =
  ok :: bool
  status :: jsstring
  statusText :: jsstring
  body :: "byte list list"
  read_error :: "jsstring option"

datatype fetched = Rejected jsstring | Resolved response

text \<open>
  The readings of \<^verbatim>\<open>Date.now()\<close> (in decimal) and \<^verbatim>\<open>new Date().toISOString()\<close> that one
  call of sendMessage makes.
\<close>

record clock =
  user_now :: jsstring
  user_iso :: jsstring
  assistant_now :: jsstring
  assistant_iso :: jsstring

text \<open>
  Lines 280 to 309: the user's message and the empty assistant message are appended. The
  embedding starts where the active session exists (line 278); the request itself is not
  part of it.
\<close>

definition sm_begin :: "clock \<Rightarrow> jsstring \<Rightarrow> store \<Rightarrow> sm_vars \<times> store" where
  "sm_begin clk content st =
     (let userMsg = \<lparr>m_id = js ''temp-'' @ user_now clk, m_role = User, m_content = content,
                      m_timestamp = user_iso clk, m_image_url = None, m_isError = False\<rparr>;
          st1 = st\<lparr>messages := messages st @ [userMsg], isStreaming := True\<rparr>;
          v = \<lparr>assistantContent = [], assistantMsgId = js ''assistant-'' @ assistant_now clk\<rparr>;
          st2 = st1\<lparr>messages := messages st1 @
                  [\<lparr>m_id = assistantMsgId v, m_role = Assistant, m_content = [],
                    m_timestamp = assistant_iso clk, m_image_url = None, m_isError = False\<rparr>]\<rparr>
      in (v, st2))"

text \<open>The outer \<^verbatim>\<open>catch\<close> (lines 472 to 483) and the last \<^verbatim>\<open>set\<close> (line 485).\<close>

definition sm_catch :: "jsstring \<Rightarrow> sm_vars \<times> store \<Rightarrow> store" where
  "sm_catch msg = (\<lambda>(v, st).
     st\<lparr>messages := map (\<lambda>m. if m_id m = assistantMsgId v
                    then m\<lparr>m_content := error_text msg, m_isError := True\<rparr> else m)
                  (messages st),
        isStreaming := False, agentStage := None\<rparr>)"

definition sendMessage :: "parser \<Rightarrow> clock \<Rightarrow> jsstring \<Rightarrow> fetched \<Rightarrow> store \<Rightarrow> store" where
  "sendMessage P clk content f st =
     (let s0 = sm_begin clk content st;
          st' =
            (case f of
               Rejected msg \<Rightarrow> sm_catch msg s0
             | Resolved res \<Rightarrow>
                 if \<not> ok res then
                   sm_catch (js ''Request failed: '' @ status res @ js '' '' @ statusText res) s0
                 else
                   (let (r, s1) = sm_loop (sm_try P) (body res) (sm_reader_new, s0)
                    in case read_error res of None \<Rightarrow> snd s1 | Some msg \<Rightarrow> sm_catch msg s1))
      in st'\<lparr>isStreaming := False, agentStage := None\<rparr>)"

section \<open>stopStreaming\<close>

definition stopStreaming :: "store \<Rightarrow> store" where
  "stopStreaming st = st\<lparr>isStreaming := False, agentStage := None\<rparr>"

section \<open>regenerateMessage\<close>

text \<open>The variables \<^verbatim>\<open>newContent\<close> and \<^verbatim>\<open>newMsgId\<close> of one call.\<close>

record rg_vars =
  newContent :: jsstring
  newMsgId :: jsstring

text \<open>The body of the \<^verbatim>\<open>try\<close> block for a parsed event (lines 543 to 569).\<close>

definition rg_event :: "event \<Rightarrow> rg_vars \<times> store \<Rightarrow> rg_vars \<times> store" where
  "rg_event ev = (\<lambda>(v, st).
     let (v1, st1) =
           (if truthy (ev_content ev) then
              (let v' = v\<lparr>newContent := newContent v @ the (ev_content ev)\<rparr>
               in (v', st\<lparr>messages := map (\<lambda>m. if m_id m = newMsgId v'
                                then m\<lparr>m_content := newContent v'\<rparr> else m)
                              (messages st)\<rparr>))
            else (v, st));
         v2 = (if truthy (ev_message_id ev)
               then v1\<lparr>newMsgId := the (ev_message_id ev)\<rparr> else v1);
         st3 = (if ev_done ev then st1\<lparr>isStreaming := False\<rparr> else st1);
         st4 =
           (if truthy (ev_error ev) then
              st3\<lparr>messages := map (\<lambda>m. if m_id m = newMsgId v2
                               then m\<lparr>m_content := error_text (the (ev_error ev)),
                                      m_isError := True\<rparr> else m)
                             (messages st3),
                  isStreaming := False\<rparr>
            else st3)
     in (v2, st4))"

definition rg_try :: "parser \<Rightarrow> jsstring \<Rightarrow> rg_vars \<times> store \<Rightarrow> rg_vars \<times> store" where
  "rg_try P d s = (case P d of None \<Rightarrow> s | Some ev \<Rightarrow> rg_event ev s)"

text \<open>One line of the \<^verbatim>\<open>for\<close> loop (lines 535 to 573), and one chunk (lines 532 to 573).\<close>

definition rg_line :: "(jsstring \<Rightarrow> 's \<Rightarrow> 's) \<Rightarrow> jsstring \<Rightarrow> 's \<Rightarrow> 's" where
  "rg_line h line s =
     (if \<not> startsWith line (js ''data: '') then s
      else (let d = slice_js 6 line
            in if d = js ''[DONE]'' then s else h d s))"

definition rg_chunk :: "(jsstring \<Rightarrow> 's \<Rightarrow> 's) \<Rightarrow> byte list \<Rightarrow> TextDecoder \<times> 's \<Rightarrow> TextDecoder \<times> 's" where
  "rg_chunk h val = (\<lambda>(td, s).
     let (td', text) = decode False td val;
         lines = split_nl text
     in (td', fold (rg_line h) lines s))"

definition rg_loop :: "(jsstring \<Rightarrow> 's \<Rightarrow> 's) \<Rightarrow> byte list list \<Rightarrow> TextDecoder \<times> 's \<Rightarrow> TextDecoder \<times> 's" where
  "rg_loop h chunks = fold (rg_chunk h) chunks"

definition rg_frames :: "byte list list \<Rightarrow> jsstring list" where
  "rg_frames chunks = snd (rg_loop (\<lambda>d ds. ds @ [d]) chunks (TextDecoder_new, []))"

text \<open>\<^verbatim>\<open>findIndex\<close>, with \<open>None\<close> for \<^verbatim>\<open>-1\<close>.\<close>

fun findIndex :: "('a \<Rightarrow> bool) \<Rightarrow> 'a list \<Rightarrow> nat option" where
  "findIndex p [] = None"
| "findIndex p (x # xs) =
     (if p x then Some 0 else (case findIndex p xs of None \<Rightarrow> None | Some i \<Rightarrow> Some (Suc i)))"

text \<open>\<^verbatim>\<open>xs.map((m, i) => i === k ? f(m) : m)\<close>.\<close>

definition map_at :: "nat \<Rightarrow> ('a \<Rightarrow> 'a) \<Rightarrow> 'a list \<Rightarrow> 'a list" where
  "map_at k f xs = map (\<lambda>(i, m). if i = k then f m else m) (enumerate 0 xs)"

datatype request = Post jsstring

definition rg_catch :: "nat \<Rightarrow> jsstring \<Rightarrow> store \<Rightarrow> store" where
  "rg_catch msgIndex msg st =
     st\<lparr>messages := map_at msgIndex
                      (\<lambda>m. m\<lparr>m_content := error_text msg, m_isError := True\<rparr>) (messages st),
        isStreaming := False\<rparr>"

text \<open>Lines 515 to 526: the two variables, and the target message emptied and made last.\<close>

definition rg_begin :: "jsstring \<Rightarrow> nat \<Rightarrow> store \<Rightarrow> rg_vars \<times> store" where
  "rg_begin now msgIndex st =
     (let v = \<lparr>newContent = [], newMsgId = js ''regen-'' @ now\<rparr>
      in (v, st\<lparr>messages := take (msgIndex + 1)
                    (map_at msgIndex (\<lambda>m. m\<lparr>m_id := newMsgId v, m_content := []\<rparr>)
                       (messages st))\<rparr>))"

text \<open>
  The action, with the requests it sends. \<open>messageId\<close> is \<open>None\<close> for \<^verbatim>\<open>null\<close> or
  \<^verbatim>\<open>undefined\<close>; \<open>now\<close> is the reading of \<^verbatim>\<open>Date.now()\<close> in decimal.
\<close>

definition regenerateMessage ::
  "parser \<Rightarrow> jsstring \<Rightarrow> jsstring option \<Rightarrow> fetched \<Rightarrow> store \<Rightarrow> store \<times> request list" where
  "regenerateMessage P now messageId f st =
     (if activeSession st = None \<or> \<not> truthy messageId then (st, [])
      else
        (case findIndex (\<lambda>m. m_id m = the messageId) (messages st) of
           None \<Rightarrow> (st, [])
         | Some msgIndex \<Rightarrow>
             (let st1 = st\<lparr>isStreaming := True\<rparr>;
                  req = Post (js ''/api/chat/sessions/'' @ s_id (the (activeSession st))
                              @ js ''/regenerate/'' @ the messageId);
                  st' =
                    (case f of
                       Rejected msg \<Rightarrow> rg_catch msgIndex msg st1
                     | Resolved res \<Rightarrow>
                         if \<not> ok res then rg_catch msgIndex (js ''Regeneration failed'') st1
                         else
                           (let (td, s1) = rg_loop (rg_try P) (body res)
                                             (TextDecoder_new, rg_begin now msgIndex st1)
                            in case read_error res of
                                 None \<Rightarrow> snd s1
                               | Some msg \<Rightarrow> rg_catch msgIndex msg (snd s1)))
              in (st'\<lparr>isStreaming := False\<rparr>, [req]))))"

section \<open>The records of the wire, by kind\<close>

text \<open>
  The record with no recognised field, and the records the classifier reads as one kind
  of event only.
\<close>

definition no_event :: event where
  "no_event = \<lparr>ev_stage = None, ev_type = None, ev_content = None, ev_prompt = None,
               ev_url = None, ev_message_id = None, ev_done = False,
               ev_processed_content = None, ev_error = None\<rparr>"

definition ContentDelta :: "jsstring \<Rightarrow> event" where
  "ContentDelta c = no_event\<lparr>ev_type := Some (js ''content''), ev_content := Some c\<rparr>"

definition ImageReady :: "jsstring \<Rightarrow> event" where
  "ImageReady u = no_event\<lparr>ev_type := Some (js ''image''), ev_url := Some u\<rparr>"

definition PostProcessed :: "jsstring \<Rightarrow> event" where
  "PostProcessed c = no_event\<lparr>ev_type := Some (js ''processed_content''), ev_content := Some c\<rparr>"

definition IdAssigned :: "jsstring \<Rightarrow> event" where
  "IdAssigned i = no_event\<lparr>ev_message_id := Some i\<rparr>"

definition Done :: "jsstring option \<Rightarrow> event" where
  "Done p = no_event\<lparr>ev_done := True, ev_processed_content := p\<rparr>"

definition Failure :: "jsstring \<Rightarrow> event" where
  "Failure e = no_event\<lparr>ev_error := Some e\<rparr>"

text \<open>In regenerateMessage a content delta is any record with \<^verbatim>\<open>content\<close> (line 543).\<close>

definition rg_ContentDelta :: "jsstring \<Rightarrow> event" where
  "rg_ContentDelta c = no_event\<lparr>ev_content := Some c\<rparr>"

text \<open>An ASCII literal as the bytes of a chunk.\<close>

definition ascii :: "string \<Rightarrow> byte list" where
  "ascii s = map of_char s"

section \<open>A reader for the records of the wire\<close>

text \<open>
  To run the loops on concrete streams, \<open>wire_parse\<close> stands for \<^verbatim>\<open>JSON.parse\<close> on the
  records of the wire contract: a JSON object whose members are strings, \<^verbatim>\<open>true\<close>,
  \<^verbatim>\<open>false\<close> or \<^verbatim>\<open>null\<close>, with JSON's white space and string escapes; a later member
  with the same key wins. A recognised field that holds \<^verbatim>\<open>null\<close> or \<^verbatim>\<open>false\<close> reads as
  absent, which is how the handlers treat it. It gives \<open>None\<close> for a text that is not
  JSON and for \<^verbatim>\<open>null\<close>, where the \<^verbatim>\<open>try\<close> block throws, and the record with no field
  for a string or a boolean. Texts with numbers, arrays or nested objects, and a
  recognised string field that holds \<^verbatim>\<open>true\<close>, are outside the contract and outside this
  reader, which gives \<open>None\<close> for them. The theorems about the loops are stated for every
  parser; this one only serves the concrete runs.
\<close>

definition json_ws :: "jschar \<Rightarrow> bool" where
  "json_ws c = (c = 0x20 \<or> c = 0x09 \<or> c = 0x0A \<or> c = 0x0D)"

definition hex_digit :: "jschar \<Rightarrow> jschar option" where
  "hex_digit c =
     (if 0x30 \<le> c \<and> c \<le> 0x39 then Some (c - 0x30)
      else if 0x41 \<le> c \<and> c \<le> 0x46 then Some (c - 0x37)
      else if 0x61 \<le> c \<and> c \<le> 0x66 then Some (c - 0x57)
      else None)"

definition json_escape :: "jschar \<Rightarrow> jschar option" where
  "json_escape c =
     (if c = 0x22 \<or> c = 0x5C \<or> c = 0x2F then Some c
      else if c = 0x62 then Some 0x08
      else if c = 0x66 then Some 0x0C
      else if c = 0x6E then Some 0x0A
      else if c = 0x72 then Some 0x0D
      else if c = 0x74 then Some 0x09
      else None)"

definition consed :: "jschar option \<Rightarrow> (jsstring \<times> jsstring) option \<Rightarrow> (jsstring \<times> jsstring) option" where
  "consed c r = (case (c, r) of (Some x, Some (s, rest)) \<Rightarrow> Some (x # s, rest) | _ \<Rightarrow> None)"

fun json_string :: "jsstring \<Rightarrow> (jsstring \<times> jsstring) option" where
  "json_string [] = None"
| "json_string (c # cs) =
     (if c = 0x22 then Some ([], cs)
      else if c = 0x5C then
        (case cs of
           [] \<Rightarrow> None
         | e # r \<Rightarrow>
             if e = 0x75 then
               (case r of
                  h1 # h2 # h3 # h4 # r' \<Rightarrow>
                    (case (hex_digit h1, hex_digit h2, hex_digit h3, hex_digit h4) of
                       (Some a, Some b, Some c', Some d) \<Rightarrow>
                         consed (Some (a * 0x1000 + b * 0x100 + c' * 0x10 + d)) (json_string r')
                     | _ \<Rightarrow> None)
                | _ \<Rightarrow> None)
             else consed (json_escape e) (json_string r))
      else if c < 0x20 then None
      else consed (Some c) (json_string cs))"

datatype jvalue = JString jsstring | JBool bool | JNull

definition json_value :: "jsstring \<Rightarrow> (jvalue \<times> jsstring) option" where
  "json_value s =
     (if startsWith s [0x22] then
        (case json_string (drop 1 s) of None \<Rightarrow> None | Some (x, r) \<Rightarrow> Some (JString x, r))
      else if startsWith s (js ''true'') then Some (JBool True, drop 4 s)
      else if startsWith s (js ''false'') then Some (JBool False, drop 5 s)
      else if startsWith s (js ''null'') then Some (JNull, drop 4 s)
      else None)"

fun json_members :: "nat \<Rightarrow> jsstring \<Rightarrow> (jsstring \<times> jvalue) list option" where
  "json_members 0 s = None"
| "json_members (Suc n) s =
     (if \<not> startsWith s [0x22] then None
      else
        (case json_string (drop 1 s) of
           None \<Rightarrow> None
         | Some (k, r1) \<Rightarrow>
             (case dropWhile json_ws r1 of
                [] \<Rightarrow> None
              | colon # r2 \<Rightarrow>
                  if colon \<noteq> 0x3A then None
                  else
                    (case json_value (dropWhile json_ws r2) of
                       None \<Rightarrow> None
                     | Some (x, r3) \<Rightarrow>
                         (case dropWhile json_ws r3 of
                            [] \<Rightarrow> None
                          | e # r4 \<Rightarrow>
                              if e = 0x7D then
                                (if dropWhile json_ws r4 = [] then Some [(k, x)] else None)
                              else if e = 0x2C then
                                (case json_members n (dropWhile json_ws r4) of
                                   None \<Rightarrow> None
                                 | Some kvs \<Rightarrow> Some ((k, x) # kvs))
                              else None)))))"

definition set_string :: "jsstring \<Rightarrow> jsstring option \<Rightarrow> event \<Rightarrow> event" where
  "set_string k x ev =
     (if k = js ''stage'' then ev\<lparr>ev_stage := x\<rparr>
      else if k = js ''type'' then ev\<lparr>ev_type := x\<rparr>
      else if k = js ''content'' then ev\<lparr>ev_content := x\<rparr>
      else if k = js ''prompt'' then ev\<lparr>ev_prompt := x\<rparr>
      else if k = js ''url'' then ev\<lparr>ev_url := x\<rparr>
      else if k = js ''message_id'' then ev\<lparr>ev_message_id := x\<rparr>
      else if k = js ''processed_content'' then ev\<lparr>ev_processed_content := x\<rparr>
      else if k = js ''error'' then ev\<lparr>ev_error := x\<rparr>
      else ev)"

definition string_field :: "jsstring \<Rightarrow> bool" where
  "string_field k =
     (k = js ''stage'' \<or> k = js ''type'' \<or> k = js ''content'' \<or> k = js ''prompt''
      \<or> k = js ''url'' \<or> k = js ''message_id'' \<or> k = js ''processed_content''
      \<or> k = js ''error'')"

definition set_member :: "jsstring \<times> jvalue \<Rightarrow> event option \<Rightarrow> event option" where
  "set_member = (\<lambda>(k, x) e.
     case e of
       None \<Rightarrow> None
     | Some ev \<Rightarrow>
         if k = js ''done'' then
           Some (ev\<lparr>ev_done := (case x of JBool b \<Rightarrow> b | JString s \<Rightarrow> s \<noteq> [] | JNull \<Rightarrow> False)\<rparr>)
         else if string_field k then
           (case x of
              JString s \<Rightarrow> Some (set_string k (Some s) ev)
            | JNull \<Rightarrow> Some (set_string k None ev)
            | JBool b \<Rightarrow> if b then None else Some (set_string k None ev))
         else Some ev)"

definition wire_parse :: parser where
  "wire_parse d =
     (let s = dropWhile json_ws d
      in if startsWith s [0x7B] then
           (let s1 = dropWhile json_ws (drop 1 s)
            in if startsWith s1 [0x7D] then
                 (if dropWhile json_ws (drop 1 s1) = [] then Some no_event else None)
               else
                 (case json_members (length s1) s1 of
                    None \<Rightarrow> None
                  | Some kvs \<Rightarrow> fold set_member kvs (Some no_event)))
         else
           (case json_value s of
              None \<Rightarrow> None
            | Some (x, r) \<Rightarrow>
                if x = JNull \<or> dropWhile json_ws r \<noteq> [] then None else Some no_event))"

section \<open>The frames of a text\<close>

text \<open>
  The payloads of a list of lines as the wire contract describes them: the lines that
  begin with \<^verbatim>\<open>data: \<close>, without that prefix; sendMessage trims them and leaves out the
  empty ones and \<^verbatim>\<open>[DONE]\<close>, regenerateMessage leaves out \<^verbatim>\<open>[DONE]\<close>.
\<close>

definition data_lines :: "jsstring list \<Rightarrow> jsstring list" where
  "data_lines ls = map (slice_js 6) (filter (\<lambda>l. startsWith l (js ''data: '')) ls)"

definition sm_payloads :: "jsstring list \<Rightarrow> jsstring list" where
  "sm_payloads ls = filter (\<lambda>d. d \<noteq> js ''[DONE]'' \<and> d \<noteq> []) (map trim (data_lines ls))"

definition rg_payloads :: "jsstring list \<Rightarrow> jsstring list" where
  "rg_payloads ls = filter (\<lambda>d. d \<noteq> js ''[DONE]'') (data_lines ls)"

section \<open>Relations used in the proofs\<close>

text \<open>The last message of the list is the one a call of sendMessage is writing to.\<close>

definition tracked_last :: "sm_vars \<times> store \<Rightarrow> bool" where
  "tracked_last = (\<lambda>(v, st). messages st \<noteq> [] \<and> m_id (last (messages st)) = assistantMsgId v)"

text \<open>
  Two states of a call with the same variables, where the first store's list of messages
  extends the second's, or where the two stores differ in \<^verbatim>\<open>isStreaming\<close> and
  \<^verbatim>\<open>agentStage\<close> at most.
\<close>

definition longer_list :: "sm_vars \<times> store \<Rightarrow> sm_vars \<times> store \<Rightarrow> bool" where
  "longer_list s1 s2 =
     (fst s1 = fst s2
      \<and> take (length (messages (snd s2))) (messages (snd s1)) = messages (snd s2))"

definition other_flags :: "sm_vars \<times> store \<Rightarrow> sm_vars \<times> store \<Rightarrow> bool" where
  "other_flags s1 s2 =
     (fst s1 = fst s2
      \<and> (snd s1)\<lparr>isStreaming := isStreaming (snd s2), agentStage := agentStage (snd s2)\<rparr> = snd s2)"

text \<open>
  A step of a call that rewrites the list message by message: the variables it leaves
  and the function it applies to each message depend on the variables it starts from,
  not on the store.
\<close>

definition messagewise :: "(sm_vars \<times> store \<Rightarrow> sm_vars \<times> store) \<Rightarrow> bool" where
  "messagewise F =
     (\<forall>v. \<exists>v' f. \<forall>st. fst (F (v, st)) = v' \<and> messages (snd (F (v, st))) = map f (messages st))"

section \<open>Sample data\<close>

text \<open>Clock readings for two turns, a list of two messages, and a turn in progress.\<close>

definition clock1 :: clock where
  "clock1 = \<lparr>user_now = js ''1'', user_iso = js ''t1'', assistant_now = js ''2'',
             assistant_iso = js ''t2''\<rparr>"

definition clock2 :: clock where
  "clock2 = \<lparr>user_now = js ''3'', user_iso = js ''t3'', assistant_now = js ''4'',
             assistant_iso = js ''t4''\<rparr>"

definition two_messages :: "message list" where
  "two_messages =
     [\<lparr>m_id = js ''u1'', m_role = User, m_content = js ''hello'', m_timestamp = js ''t1'',
       m_image_url = None, m_isError = False\<rparr>,
      \<lparr>m_id = js ''a1'', m_role = Assistant, m_content = js ''old'', m_timestamp = js ''t2'',
       m_image_url = None, m_isError = False\<rparr>]"

text \<open>The first turn after its first delta \<^verbatim>\<open>Once\<close>.\<close>

definition turn_A :: "sm_vars \<times> store" where
  "turn_A = sm_event (ContentDelta (js ''Once'')) (sm_begin clock1 (js ''Tell me a story'') store_init)"

text \<open>
  A stream of two lines: the first payload is clipped, the second is a content delta.
\<close>

definition clipped_stream :: "byte list list" where
  \<open>clipped_stream =
     [ascii ''data: {"content": "ok"'' @ [0x0A]
        @ ascii ''data: {"type":"content","content":"ok"}'' @ [0x0A]]\<close>

section \<open>Lines and chunks\<close>

text \<open>
  Splitting a text at its line feeds after appending more text only touches the last
  piece: this is what keeping the last piece in \<^verbatim>\<open>buffer\<close> relies on.
\<close>

lemma split_nl_nonempty: "split_nl s \<noteq> []"
  by (induction s) (auto split: list.splits)

lemma split_nl_append:
  "split_nl (a @ b) = butlast (split_nl a) @ split_nl (last (split_nl a) @ b)"
proof (induction a)
  case Nil
  show ?case by simp
next
  case (Cons c cs)
  show ?case
  proof (cases "c = 0x0A")
    case True
    then show ?thesis using Cons split_nl_nonempty [of cs] by simp
  next
    case False
    obtain l ls where s: "split_nl cs = l # ls"
      using split_nl_nonempty [of cs] by (cases "split_nl cs") auto
    show ?thesis
    proof (cases ls)
      case Nil
      then show ?thesis using False Cons s by simp
    next
      case (Cons l' ls')
      then show ?thesis using False Cons.IH s by simp
    qed
  qed
qed

lemma utf8_run_append:
  "utf8_run d (a @ b) =
     (let (d1, o1) = utf8_run d a; (d2, o2) = utf8_run d1 b in (d2, o1 @ o2))"
  by (induction a arbitrary: d) (auto split: prod.splits)

lemma serialize_append:
  "serialize seen (a @ b) =
     (let (s1, o1) = serialize seen a; (s2, o2) = serialize s1 b in (s2, o1 @ o2))"
  by (induction a arbitrary: seen) (auto split: prod.splits)

lemma decode_stream_append:
  "do_not_flush td \<Longrightarrow>
   decode True td (a @ b) =
     (let (td1, t1) = decode True td a; (td2, t2) = decode True td1 b in (td2, t1 @ t2))"
  by (auto simp: decode_def utf8_run_append serialize_append split: prod.splits)

lemma decode_stream_flag: "do_not_flush (fst (decode True td a))"
  by (simp add: decode_def split: prod.splits)

lemma decode_stream_new:
  "decode True TextDecoder_new a = decode True (TextDecoder_new\<lparr>do_not_flush := True\<rparr>) a"
  by (simp add: decode_def TextDecoder_new_def)

lemma sm_chunk_append:
  "do_not_flush (sm_decoder r) \<Longrightarrow>
   sm_chunk h (a @ b) (r, s) = sm_chunk h b (sm_chunk h a (r, s))"
proof -
  assume f: "do_not_flush (sm_decoder r)"
  obtain td1 t1 where d1: "decode True (sm_decoder r) a = (td1, t1)" by force
  obtain td2 t2 where d2: "decode True td1 b = (td2, t2)" by force
  have d: "decode True (sm_decoder r) (a @ b) = (td2, t1 @ t2)"
    using decode_stream_append [OF f, of a b] d1 d2 by simp
  have sp: "split_nl ((buffer r @ t1) @ t2) =
        butlast (split_nl (buffer r @ t1)) @ split_nl (last (split_nl (buffer r @ t1)) @ t2)"
    by (rule split_nl_append)
  show ?thesis
    using d d1 d2 sp split_nl_nonempty [of "buffer r @ t1"]
      split_nl_nonempty [of "last (split_nl (buffer r @ t1)) @ t2"]
    by (simp add: sm_chunk_def butlast_append Let_def)
qed


lemma split_nl_no_nl: "l \<in> set (split_nl s) \<Longrightarrow> 0x0A \<notin> set l"
proof (induction s arbitrary: l)
  case Nil
  then show ?case by simp
next
  case (Cons c cs)
  obtain k ks where s: "split_nl cs = k # ks"
    using split_nl_nonempty [of cs] by (cases "split_nl cs") auto
  show ?case
  proof (cases "c = 0x0A")
    case True
    then show ?thesis using Cons by auto
  next
    case False
    then have "l = c # k \<or> l \<in> set ks" using Cons.prems s by simp
    then show ?thesis using False Cons.IH [of k] Cons.IH [of l] s by auto
  qed
qed

lemma split_nl_single: "0x0A \<notin> set s \<Longrightarrow> split_nl s = [s]"
  by (induction s) auto

lemma decode_stream_nil: "do_not_flush td \<Longrightarrow> decode True td [] = (td, [])"
  by (simp add: decode_def)

lemma sm_chunk_nil:
  "do_not_flush (sm_decoder r) \<Longrightarrow> 0x0A \<notin> set (buffer r) \<Longrightarrow> sm_chunk h [] (r, s) = (r, s)"
  by (simp add: sm_chunk_def decode_stream_nil split_nl_single)

lemma sm_chunk_ready:
  "do_not_flush (sm_decoder (fst (sm_chunk h c (r, s))))
   \<and> 0x0A \<notin> set (buffer (fst (sm_chunk h c (r, s))))"
proof -
  obtain td t where d: "decode True (sm_decoder r) c = (td, t)" by force
  have "do_not_flush td" using decode_stream_flag [of "sm_decoder r" c] d by simp
  moreover have "0x0A \<notin> set (last (split_nl (buffer r @ t)))"
    using split_nl_no_nl [of "last (split_nl (buffer r @ t))" "buffer r @ t"]
      split_nl_nonempty [of "buffer r @ t"] by simp
  ultimately show ?thesis
    using d split_nl_nonempty [of "buffer r @ t"] by (simp add: sm_chunk_def Let_def)
qed

lemma sm_loop_concat:
  "do_not_flush (sm_decoder r) \<Longrightarrow> 0x0A \<notin> set (buffer r) \<Longrightarrow>
   sm_loop h chunks (r, s) = sm_chunk h (concat chunks) (r, s)"
proof (induction chunks arbitrary: r s)
  case Nil
  then show ?case by (simp add: sm_loop_def sm_chunk_nil)
next
  case (Cons c cs)
  obtain r1 s1 where c1: "sm_chunk h c (r, s) = (r1, s1)" by force
  have rdy: "do_not_flush (sm_decoder r1)" "0x0A \<notin> set (buffer r1)"
    using sm_chunk_ready [of h c r s] c1 by simp_all
  have "sm_loop h (c # cs) (r, s) = sm_loop h cs (r1, s1)"
    using c1 by (simp add: sm_loop_def)
  also have "\<dots> = sm_chunk h (concat cs) (r1, s1)"
    using Cons.IH [OF rdy] .
  also have "\<dots> = sm_chunk h (c @ concat cs) (r, s)"
    using sm_chunk_append [OF Cons.prems(1), of h c "concat cs" s] c1 by simp
  finally show ?case by simp
qed

lemma sm_chunk_new:
  "sm_chunk h c (sm_reader_new, s) =
   sm_chunk h c (\<lparr>sm_decoder = TextDecoder_new\<lparr>do_not_flush := True\<rparr>, buffer = []\<rparr>, s)"
  by (simp add: sm_chunk_def sm_reader_new_def decode_stream_new)

lemma sm_loop_new:
  "sm_loop h (c # cs) (sm_reader_new, s) = sm_chunk h (concat (c # cs)) (sm_reader_new, s)"
proof -
  let ?r = "\<lparr>sm_decoder = TextDecoder_new\<lparr>do_not_flush := True\<rparr>, buffer = []\<rparr>"
  have "sm_loop h (c # cs) (?r, s) = sm_chunk h (concat (c # cs)) (?r, s)"
    by (rule sm_loop_concat) simp_all
  then show ?thesis
    using sm_chunk_new [of h c s] sm_chunk_new [of h "concat (c # cs)" s]
    by (simp add: sm_loop_def)
qed

lemma sm_loop_chunking:
  "snd (sm_loop h chunks (sm_reader_new, s)) = snd (sm_loop h [concat chunks] (sm_reader_new, s))"
proof (cases chunks)
  case Nil
  then show ?thesis
    by (simp add: sm_loop_def sm_chunk_def sm_reader_new_def decode_def TextDecoder_new_def)
next
  case (Cons c cs)
  then show ?thesis using sm_loop_new [of h c cs s] by (simp add: sm_loop_def)
qed

lemma sm_line_record:
  "fold (sm_line (\<lambda>d ds. ds @ [d])) ls acc = acc @ fold (sm_line (\<lambda>d ds. ds @ [d])) ls []"
proof (induction ls arbitrary: acc)
  case Nil
  show ?case by simp
next
  case (Cons l ls)
  show ?case
    using Cons.IH [of "sm_line (\<lambda>d ds. ds @ [d]) l acc"]
      Cons.IH [of "sm_line (\<lambda>d ds. ds @ [d]) l []"]
    by (simp add: sm_line_def Let_def)
qed

lemma sm_line_one: "sm_line h l s = fold h (sm_line (\<lambda>d ds. ds @ [d]) l []) s"
  by (simp add: sm_line_def Let_def)

lemma sm_line_fold:
  "fold (sm_line h) ls s = fold h (fold (sm_line (\<lambda>d ds. ds @ [d])) ls []) s"
proof (induction ls arbitrary: s)
  case Nil
  show ?case by simp
next
  case (Cons l ls)
  have "fold (sm_line h) (l # ls) s = fold (sm_line h) ls (sm_line h l s)" by simp
  also have "\<dots> = fold h (fold (sm_line (\<lambda>d ds. ds @ [d])) ls []) (sm_line h l s)"
    by (rule Cons.IH)
  also have "\<dots> = fold h (sm_line (\<lambda>d ds. ds @ [d]) l [] @ fold (sm_line (\<lambda>d ds. ds @ [d])) ls []) s"
    using sm_line_one [of h l s] by simp
  also have "\<dots> = fold h (fold (sm_line (\<lambda>d ds. ds @ [d])) (l # ls) []) s"
    using sm_line_record [of ls "sm_line (\<lambda>d ds. ds @ [d]) l []"] by simp
  finally show ?case .
qed

lemma sm_chunk_fst: "fst (sm_chunk h c (r, s)) = fst (sm_chunk h' c (r, s'))"
  by (simp add: sm_chunk_def Let_def split: prod.splits)

lemma sm_chunk_record:
  "snd (sm_chunk (\<lambda>d ds. ds @ [d]) c (r, acc)) = acc @ snd (sm_chunk (\<lambda>d ds. ds @ [d]) c (r, []))"
proof -
  obtain td t where d: "decode True (sm_decoder r) c = (td, t)" by force
  show ?thesis
    using d sm_line_record [of "butlast (split_nl (buffer r @ t))" acc]
    by (simp add: sm_chunk_def Let_def)
qed

lemma sm_chunk_snd:
  "snd (sm_chunk h c (r, s)) = fold h (snd (sm_chunk (\<lambda>d ds. ds @ [d]) c (r, []))) s"
proof -
  obtain td t where d: "decode True (sm_decoder r) c = (td, t)" by force
  show ?thesis
    using d sm_line_fold [of h "butlast (split_nl (buffer r @ t))" s]
    by (simp add: sm_chunk_def Let_def)
qed

lemma sm_loop_fst: "fst (sm_loop h chunks (r, s)) = fst (sm_loop h' chunks (r, s'))"
proof (induction chunks arbitrary: r s s')
  case Nil
  show ?case by (simp add: sm_loop_def)
next
  case (Cons c cs)
  obtain r1 s1 where a: "sm_chunk h c (r, s) = (r1, s1)" by force
  obtain r2 s2 where b: "sm_chunk h' c (r, s') = (r2, s2)" by force
  have "r1 = r2" using sm_chunk_fst [of h c r s h' s'] a b by simp
  then show ?case using a b Cons.IH [of r1 s1 s2] by (simp add: sm_loop_def)
qed

lemma sm_loop_record:
  "snd (sm_loop (\<lambda>d ds. ds @ [d]) chunks (r, acc)) =
   acc @ snd (sm_loop (\<lambda>d ds. ds @ [d]) chunks (r, []))"
proof (induction chunks arbitrary: r acc)
  case Nil
  show ?case by (simp add: sm_loop_def)
next
  case (Cons c cs)
  let ?rec = "\<lambda>(d::jsstring) ds. ds @ [d]"
  obtain r1 a1 where a: "sm_chunk ?rec c (r, acc) = (r1, a1)" by force
  obtain r2 a2 where b: "sm_chunk ?rec c (r, []) = (r2, a2)" by force
  have r: "r1 = r2" using sm_chunk_fst [of ?rec c r acc ?rec "[]"] a b by simp
  have e: "a1 = acc @ a2" using sm_chunk_record [of c r acc] a b by simp
  have "snd (sm_loop ?rec (c # cs) (r, acc)) = snd (sm_loop ?rec cs (r1, a1))"
    using a by (simp add: sm_loop_def)
  also have "\<dots> = a1 @ snd (sm_loop ?rec cs (r1, []))" by (rule Cons.IH)
  also have "\<dots> = acc @ (a2 @ snd (sm_loop ?rec cs (r2, [])))" using r e by simp
  also have "\<dots> = acc @ snd (sm_loop ?rec cs (r2, a2))" using Cons.IH [of r2 a2] by simp
  also have "\<dots> = acc @ snd (sm_loop ?rec (c # cs) (r, []))" using b by (simp add: sm_loop_def)
  finally show ?case .
qed

lemma sm_loop_fold:
  "snd (sm_loop h chunks (r, s)) = fold h (snd (sm_loop (\<lambda>d ds. ds @ [d]) chunks (r, []))) s"
proof (induction chunks arbitrary: r s)
  case Nil
  show ?case by (simp add: sm_loop_def)
next
  case (Cons c cs)
  let ?rec = "\<lambda>(d::jsstring) ds. ds @ [d]"
  obtain r1 s1 where a: "sm_chunk h c (r, s) = (r1, s1)" by force
  obtain r2 a2 where b: "sm_chunk ?rec c (r, []) = (r2, a2)" by force
  have r: "r1 = r2" using sm_chunk_fst [of h c r s ?rec "[]"] a b by simp
  have e: "s1 = fold h a2 s" using sm_chunk_snd [of h c r s] a b by simp
  have "snd (sm_loop h (c # cs) (r, s)) = snd (sm_loop h cs (r1, s1))"
    using a by (simp add: sm_loop_def)
  also have "\<dots> = fold h (snd (sm_loop ?rec cs (r1, []))) s1" by (rule Cons.IH)
  also have "\<dots> = fold h (a2 @ snd (sm_loop ?rec cs (r2, []))) s" using r e by simp
  also have "\<dots> = fold h (snd (sm_loop ?rec cs (r2, a2))) s"
    using sm_loop_record [of cs r2 a2] by simp
  also have "\<dots> = fold h (snd (sm_loop ?rec (c # cs) (r, []))) s"
    using b by (simp add: sm_loop_def)
  finally show ?case .
qed

lemma sm_loop_frames:
  "snd (sm_loop h chunks (sm_reader_new, s)) = fold h (sm_frames chunks) s"
  using sm_loop_fold [of h chunks sm_reader_new s] by (simp add: sm_frames_def)

text \<open>The same for the loop of regenerateMessage.\<close>

lemma rg_line_record:
  "fold (rg_line (\<lambda>d ds. ds @ [d])) ls acc = acc @ fold (rg_line (\<lambda>d ds. ds @ [d])) ls []"
proof (induction ls arbitrary: acc)
  case Nil
  show ?case by simp
next
  case (Cons l ls)
  show ?case
    using Cons.IH [of "rg_line (\<lambda>d ds. ds @ [d]) l acc"]
      Cons.IH [of "rg_line (\<lambda>d ds. ds @ [d]) l []"]
    by (simp add: rg_line_def Let_def)
qed

lemma rg_line_one: "rg_line h l s = fold h (rg_line (\<lambda>d ds. ds @ [d]) l []) s"
  by (simp add: rg_line_def Let_def)

lemma rg_line_fold:
  "fold (rg_line h) ls s = fold h (fold (rg_line (\<lambda>d ds. ds @ [d])) ls []) s"
proof (induction ls arbitrary: s)
  case Nil
  show ?case by simp
next
  case (Cons l ls)
  have "fold (rg_line h) (l # ls) s = fold (rg_line h) ls (rg_line h l s)" by simp
  also have "\<dots> = fold h (fold (rg_line (\<lambda>d ds. ds @ [d])) ls []) (rg_line h l s)"
    by (rule Cons.IH)
  also have "\<dots> = fold h (rg_line (\<lambda>d ds. ds @ [d]) l [] @ fold (rg_line (\<lambda>d ds. ds @ [d])) ls []) s"
    using rg_line_one [of h l s] by simp
  also have "\<dots> = fold h (fold (rg_line (\<lambda>d ds. ds @ [d])) (l # ls) []) s"
    using rg_line_record [of ls "rg_line (\<lambda>d ds. ds @ [d]) l []"] by simp
  finally show ?case .
qed

lemma rg_chunk_fst: "fst (rg_chunk h c (td, s)) = fst (rg_chunk h' c (td, s'))"
  by (simp add: rg_chunk_def Let_def split: prod.splits)

lemma rg_chunk_record:
  "snd (rg_chunk (\<lambda>d ds. ds @ [d]) c (td, acc)) = acc @ snd (rg_chunk (\<lambda>d ds. ds @ [d]) c (td, []))"
proof -
  obtain td' t where d: "decode False td c = (td', t)" by force
  show ?thesis
    using d rg_line_record [of "split_nl t" acc] by (simp add: rg_chunk_def Let_def)
qed

lemma rg_chunk_snd:
  "snd (rg_chunk h c (td, s)) = fold h (snd (rg_chunk (\<lambda>d ds. ds @ [d]) c (td, []))) s"
proof -
  obtain td' t where d: "decode False td c = (td', t)" by force
  show ?thesis
    using d rg_line_fold [of h "split_nl t" s] by (simp add: rg_chunk_def Let_def)
qed

lemma rg_loop_record:
  "snd (rg_loop (\<lambda>d ds. ds @ [d]) chunks (td, acc)) =
   acc @ snd (rg_loop (\<lambda>d ds. ds @ [d]) chunks (td, []))"
proof (induction chunks arbitrary: td acc)
  case Nil
  show ?case by (simp add: rg_loop_def)
next
  case (Cons c cs)
  let ?rec = "\<lambda>(d::jsstring) ds. ds @ [d]"
  obtain r1 a1 where a: "rg_chunk ?rec c (td, acc) = (r1, a1)" by force
  obtain r2 a2 where b: "rg_chunk ?rec c (td, []) = (r2, a2)" by force
  have r: "r1 = r2" using rg_chunk_fst [of ?rec c td acc ?rec "[]"] a b by simp
  have e: "a1 = acc @ a2" using rg_chunk_record [of c td acc] a b by simp
  have "snd (rg_loop ?rec (c # cs) (td, acc)) = snd (rg_loop ?rec cs (r1, a1))"
    using a by (simp add: rg_loop_def)
  also have "\<dots> = a1 @ snd (rg_loop ?rec cs (r1, []))" by (rule Cons.IH)
  also have "\<dots> = acc @ (a2 @ snd (rg_loop ?rec cs (r2, [])))" using r e by simp
  also have "\<dots> = acc @ snd (rg_loop ?rec cs (r2, a2))" using Cons.IH [of r2 a2] by simp
  also have "\<dots> = acc @ snd (rg_loop ?rec (c # cs) (td, []))" using b by (simp add: rg_loop_def)
  finally show ?case .
qed

lemma rg_loop_fold:
  "snd (rg_loop h chunks (td, s)) = fold h (snd (rg_loop (\<lambda>d ds. ds @ [d]) chunks (td, []))) s"
proof (induction chunks arbitrary: td s)
  case Nil
  show ?case by (simp add: rg_loop_def)
next
  case (Cons c cs)
  let ?rec = "\<lambda>(d::jsstring) ds. ds @ [d]"
  obtain r1 s1 where a: "rg_chunk h c (td, s) = (r1, s1)" by force
  obtain r2 a2 where b: "rg_chunk ?rec c (td, []) = (r2, a2)" by force
  have r: "r1 = r2" using rg_chunk_fst [of h c td s ?rec "[]"] a b by simp
  have e: "s1 = fold h a2 s" using rg_chunk_snd [of h c td s] a b by simp
  have "snd (rg_loop h (c # cs) (td, s)) = snd (rg_loop h cs (r1, s1))"
    using a by (simp add: rg_loop_def)
  also have "\<dots> = fold h (snd (rg_loop ?rec cs (r1, []))) s1" by (rule Cons.IH)
  also have "\<dots> = fold h (a2 @ snd (rg_loop ?rec cs (r2, []))) s" using r e by simp
  also have "\<dots> = fold h (snd (rg_loop ?rec cs (r2, a2))) s"
    using rg_loop_record [of cs r2 a2] by simp
  also have "\<dots> = fold h (snd (rg_loop ?rec (c # cs) (td, []))) s"
    using b by (simp add: rg_loop_def)
  finally show ?case .
qed

lemma rg_loop_frames:
  "snd (rg_loop h chunks (TextDecoder_new, s)) = fold h (rg_frames chunks) s"
  using rg_loop_fold [of h chunks TextDecoder_new s] by (simp add: rg_frames_def)

text \<open>
  In sendMessage the payloads that reach the parser do not depend on where the stream
  is cut into chunks, be it inside a line or inside a multi-byte character.
\<close>

lemma sm_frames_chunking: "sm_frames chunks = sm_frames [concat chunks]"
  using sm_loop_chunking [of "\<lambda>d ds. ds @ [d]" chunks "[]"] by (simp add: sm_frames_def)

lemmas run_reader =
  sm_frames_def sm_loop_def sm_chunk_def sm_reader_new_def sm_line_def
  rg_frames_def rg_loop_def rg_chunk_def rg_line_def
  startsWith_def slice_js_def trim_def is_white_def ascii_def js_def
  decode_def TextDecoder_new_def utf8_new_def utf8_handler_def utf8_lead_def utf8_end_def
  utf16_def

section \<open>The handlers, event by event\<close>

lemmas on_defs =
  on_stage_def on_image_prompt_def on_content_def on_image_url_def
  on_processed_content_def on_message_id_def on_done_def on_error_def

lemma sm_ContentDelta:
  "sm_event (ContentDelta c) (v, st) =
     (if c = [] then (v, st)
      else (v\<lparr>assistantContent := assistantContent v @ c\<rparr>,
            st\<lparr>messages := map (\<lambda>m. if m_id m = assistantMsgId v
                           then m\<lparr>m_content := assistantContent v @ c\<rparr> else m)
                         (messages st)\<rparr>))"
  by (simp add: sm_event_def ContentDelta_def on_defs no_event_def js_def Let_def)

lemma sm_PostProcessed:
  "sm_event (PostProcessed c) (v, st) =
     (if c = [] then (v, st)
      else (v, st\<lparr>messages := map (\<lambda>m. if m_id m = assistantMsgId v
                           then m\<lparr>m_content := c\<rparr> else m)
                         (messages st)\<rparr>))"
  by (simp add: sm_event_def PostProcessed_def on_defs no_event_def js_def Let_def)

lemma sm_ImageReady:
  "sm_event (ImageReady u) (v, st) =
     (if u = [] then (v, st)
      else (v, st\<lparr>sessionImages := sessionImages st @
                     [\<lparr>img_url = u, img_messageId = assistantMsgId v\<rparr>],
                   messages := map (\<lambda>m. if m_id m = assistantMsgId v
                           then m\<lparr>m_image_url := Some u\<rparr> else m)
                         (messages st)\<rparr>))"
  by (simp add: sm_event_def ImageReady_def on_defs no_event_def js_def Let_def)

lemma sm_IdAssigned:
  "sm_event (IdAssigned i) (v, st) =
     (if i = [] \<or> i = assistantMsgId v then (v, st)
      else (v\<lparr>assistantMsgId := i\<rparr>,
            st\<lparr>messages := map (\<lambda>m. if m_id m = assistantMsgId v
                           then m\<lparr>m_id := i\<rparr> else m)
                         (messages st)\<rparr>))"
  by (simp add: sm_event_def IdAssigned_def on_defs no_event_def js_def Let_def)

lemma sm_Done:
  "sm_event (Done p) (v, st) =
     (v, if truthy p
         then st\<lparr>messages := map (\<lambda>m. if m_id m = assistantMsgId v
                           then m\<lparr>m_content := the p\<rparr> else m)
                         (messages st),
                 isStreaming := False, agentStage := None\<rparr>
         else st\<lparr>isStreaming := False, agentStage := None\<rparr>)"
  by (simp add: sm_event_def Done_def on_defs no_event_def js_def Let_def)

lemma sm_Failure:
  "sm_event (Failure e) (v, st) =
     (if e = [] then (v, st)
      else (v, st\<lparr>messages := map (\<lambda>m. if m_id m = assistantMsgId v
                           then m\<lparr>m_content := error_text e, m_isError := True\<rparr> else m)
                         (messages st),
                   isStreaming := False, agentStage := None\<rparr>))"
  by (simp add: sm_event_def Failure_def on_defs no_event_def js_def Let_def)


lemma sm_begin_last:
  "messages (snd (sm_begin clk content st)) \<noteq> []
   \<and> m_id (last (messages (snd (sm_begin clk content st)))) = assistantMsgId (fst (sm_begin clk content st))
   \<and> m_content (last (messages (snd (sm_begin clk content st)))) = []
   \<and> \<not> m_isError (last (messages (snd (sm_begin clk content st))))
   \<and> assistantContent (fst (sm_begin clk content st)) = []"
  by (simp add: sm_begin_def Let_def)

lemma sm_deltas:
  assumes "messages st \<noteq> []" and "m_id (last (messages st)) = assistantMsgId v"
    and "m_content (last (messages st)) = assistantContent v"
  shows "fst (fold sm_event (map ContentDelta ds) (v, st)) =
           v\<lparr>assistantContent := assistantContent v @ concat ds\<rparr>
       \<and> messages (snd (fold sm_event (map ContentDelta ds) (v, st))) \<noteq> []
       \<and> m_id (last (messages (snd (fold sm_event (map ContentDelta ds) (v, st))))) = assistantMsgId v
       \<and> m_content (last (messages (snd (fold sm_event (map ContentDelta ds) (v, st))))) =
           assistantContent v @ concat ds"
  using assms
proof (induction ds arbitrary: v st)
  case Nil
  then show ?case by simp
next
  case (Cons d ds)
  show ?case
  proof (cases "d = []")
    case True
    then show ?thesis using Cons.IH [OF Cons.prems] by (simp add: sm_ContentDelta)
  next
    case False
    let ?v = "v\<lparr>assistantContent := assistantContent v @ d\<rparr>"
    let ?st = "st\<lparr>messages := map (\<lambda>m. if m_id m = assistantMsgId v
                           then m\<lparr>m_content := assistantContent v @ d\<rparr> else m)
                         (messages st)\<rparr>"
    have a: "messages ?st \<noteq> []" using Cons.prems by simp
    have b: "m_id (last (messages ?st)) = assistantMsgId ?v"
      using Cons.prems by (simp add: last_map)
    have c: "m_content (last (messages ?st)) = assistantContent ?v"
      using Cons.prems by (simp add: last_map)
    show ?thesis using Cons.IH [OF a b c] False by (simp add: sm_ContentDelta)
  qed
qed

lemma on_stage_messages: "messages (on_stage ev st) = messages st"
  by (simp add: on_stage_def Let_def)

lemma tracked_on_image_prompt: "tracked_last s \<Longrightarrow> tracked_last (on_image_prompt ev s)"
  by (cases s) (simp add: tracked_last_def on_image_prompt_def)

lemma tracked_on_content: "tracked_last s \<Longrightarrow> tracked_last (on_content ev s)"
  by (cases s) (simp add: tracked_last_def on_content_def Let_def last_map)

lemma tracked_on_image_url: "tracked_last s \<Longrightarrow> tracked_last (on_image_url ev s)"
  by (cases s) (simp add: tracked_last_def on_image_url_def last_map)

lemma tracked_on_processed_content: "tracked_last s \<Longrightarrow> tracked_last (on_processed_content ev s)"
  by (cases s) (simp add: tracked_last_def on_processed_content_def last_map)

lemma tracked_on_message_id: "tracked_last s \<Longrightarrow> tracked_last (on_message_id ev s)"
  by (cases s) (simp add: tracked_last_def on_message_id_def Let_def last_map)

lemma tracked_on_done: "tracked_last s \<Longrightarrow> tracked_last (on_done ev s)"
  by (cases s) (simp add: tracked_last_def on_done_def last_map)

lemma tracked_on_error: "tracked_last s \<Longrightarrow> tracked_last (on_error ev s)"
  by (cases s) (simp add: tracked_last_def on_error_def last_map)

lemmas tracked_steps =
  tracked_on_image_prompt tracked_on_content tracked_on_image_url
  tracked_on_processed_content tracked_on_message_id tracked_on_done tracked_on_error

lemma tracked_sm_event: "tracked_last s \<Longrightarrow> tracked_last (sm_event ev s)"
proof -
  assume t: "tracked_last s"
  obtain v st where s: "s = (v, st)" by force
  have t1: "tracked_last (v, on_stage ev st)"
    using t s by (simp add: tracked_last_def on_stage_messages)
  have "tracked_last (on_error ev (on_done ev (on_message_id ev (on_processed_content ev
         (on_image_url ev (on_content ev (on_image_prompt ev (v, on_stage ev st))))))))"
    by (intro tracked_steps t1)
  then show ?thesis
    using t1 s by (simp add: sm_event_def Let_def tracked_last_def)
qed

lemma tracked_sm_begin: "tracked_last (sm_begin clk content st)"
  by (simp add: tracked_last_def sm_begin_def Let_def)

lemma tracked_fold: "tracked_last s \<Longrightarrow> tracked_last (fold sm_event evs s)"
  by (induction evs arbitrary: s) (simp_all add: tracked_sm_event)

lemma on_done_content:
  "ev_done ev \<Longrightarrow> ev_processed_content ev = Some p \<Longrightarrow> p \<noteq> [] \<Longrightarrow> tracked_last s \<Longrightarrow>
   m_content (last (messages (snd (on_done ev s)))) = p"
  by (cases s) (simp add: tracked_last_def on_done_def last_map)

lemma on_error_content:
  "ev_error ev = Some e \<Longrightarrow> e \<noteq> [] \<Longrightarrow> tracked_last s \<Longrightarrow>
   m_content (last (messages (snd (on_error ev s)))) = error_text e
   \<and> m_isError (last (messages (snd (on_error ev s))))"
  by (cases s) (simp add: tracked_last_def on_error_def last_map)

lemma on_error_none: "\<not> truthy (ev_error ev) \<Longrightarrow> on_error ev s = s"
  by (cases s) (simp add: on_error_def)

lemma sm_event_late:
  "ev_type ev \<noteq> Some (js ''director_chunk'') \<Longrightarrow> ev_type ev \<noteq> Some (js ''outline'') \<Longrightarrow>
   ev_type ev \<noteq> Some (js ''paint_chunk'') \<Longrightarrow>
   sm_event ev (v, st) =
     on_error ev (on_done ev (on_message_id ev (on_processed_content ev
       (on_image_url ev (on_content ev (on_image_prompt ev (v, on_stage ev st)))))))"
  by (simp add: sm_event_def)

lemma sm_event_images:
  "sessionImages (snd (sm_event ev (v, st))) =
     sessionImages st @
       (if ev_type ev = Some (js ''image'') \<and> truthy (ev_url ev)
        then [\<lparr>img_url = the (ev_url ev), img_messageId = assistantMsgId v\<rparr>] else [])"
proof -
  have a: "sessionImages (on_stage ev st) = sessionImages st"
    by (simp add: on_stage_def Let_def)
  have b: "\<And>s. sessionImages (snd (on_image_prompt ev s)) = sessionImages (snd s)
             \<and> fst (on_image_prompt ev s) = fst s"
    by (simp add: on_image_prompt_def split: prod.splits)
  have c: "\<And>s. sessionImages (snd (on_content ev s)) = sessionImages (snd s)
             \<and> assistantMsgId (fst (on_content ev s)) = assistantMsgId (fst s)"
    by (simp add: on_content_def Let_def split: prod.splits)
  have d: "\<And>s. sessionImages (snd (on_image_url ev s)) =
        sessionImages (snd s) @
          (if ev_type ev = Some (js ''image'') \<and> truthy (ev_url ev)
           then [\<lparr>img_url = the (ev_url ev), img_messageId = assistantMsgId (fst s)\<rparr>] else [])"
    by (simp add: on_image_url_def split: prod.splits)
  have e: "\<And>s. sessionImages (snd (on_processed_content ev s)) = sessionImages (snd s)"
    by (simp add: on_processed_content_def split: prod.splits)
  have f: "\<And>s. sessionImages (snd (on_message_id ev s)) = sessionImages (snd s)"
    by (simp add: on_message_id_def Let_def split: prod.splits)
  have g: "\<And>s. sessionImages (snd (on_done ev s)) = sessionImages (snd s)"
    by (simp add: on_done_def split: prod.splits)
  have h: "\<And>s. sessionImages (snd (on_error ev s)) = sessionImages (snd s)"
    by (simp add: on_error_def split: prod.splits)
  show ?thesis
    by (simp add: sm_event_def Let_def a b c d e f g h js_def)
qed

lemma sm_event_chunk:
  assumes "ev_content ev = Some c" and "c \<noteq> []"
  shows "ev_type ev = Some (js ''director_chunk'') \<Longrightarrow>
           sm_event ev (v, st) =
             (v, (on_stage ev st)\<lparr>directorOutput := directorOutput (on_stage ev st) @ c\<rparr>)"
    and "ev_type ev = Some (js ''paint_chunk'') \<Longrightarrow>
           sm_event ev (v, st) =
             (v, (on_stage ev st)\<lparr>paintDirectorOutput := paintDirectorOutput (on_stage ev st) @ c\<rparr>)"
  using assms by (simp_all add: sm_event_def Let_def js_def)

lemma on_stage_keeps:
  "messages (on_stage ev st) = messages st \<and> sessionImages (on_stage ev st) = sessionImages st
   \<and> isStreaming (on_stage ev st) = isStreaming st"
  by (simp add: on_stage_def Let_def)

lemma on_stage_none: "\<not> truthy (ev_stage ev) \<Longrightarrow> on_stage ev st = st"
  by (simp add: on_stage_def)

lemma findIndex_None: "(findIndex p xs = None) = (\<forall>x \<in> set xs. \<not> p x)"
  by (induction xs) (auto split: option.splits)

lemma sm_try_fold: "fold (sm_try P) ds s = fold sm_event (List.map_filter P ds) s"
  by (induction ds arbitrary: s) (simp_all add: sm_try_def map_filter_simps split: option.splits)

lemma rg_try_fold: "fold (rg_try P) ds s = fold rg_event (List.map_filter P ds) s"
  by (induction ds arbitrary: s) (simp_all add: rg_try_def map_filter_simps split: option.splits)

lemma rg_IdAssigned:
  "rg_event (IdAssigned i) (v, st) = (if i = [] then (v, st) else (v\<lparr>newMsgId := i\<rparr>, st))"
  by (simp add: rg_event_def IdAssigned_def no_event_def Let_def)

lemma rg_ContentDelta:
  "rg_event (rg_ContentDelta c) (v, st) =
     (if c = [] then (v, st)
      else (v\<lparr>newContent := newContent v @ c\<rparr>,
            st\<lparr>messages := map (\<lambda>m. if m_id m = newMsgId v
                           then m\<lparr>m_content := newContent v @ c\<rparr> else m)
                         (messages st)\<rparr>))"
  by (simp add: rg_event_def rg_ContentDelta_def no_event_def Let_def)

section \<open>A later step of a call, whatever happened to the store\<close>

lemma longer_steps:
  assumes "longer_list s1 s2"
  shows "longer_list (on_image_prompt ev s1) (on_image_prompt ev s2)"
    and "longer_list (on_content ev s1) (on_content ev s2)"
    and "longer_list (on_image_url ev s1) (on_image_url ev s2)"
    and "longer_list (on_processed_content ev s1) (on_processed_content ev s2)"
    and "longer_list (on_message_id ev s1) (on_message_id ev s2)"
    and "longer_list (on_done ev s1) (on_done ev s2)"
    and "longer_list (on_error ev s1) (on_error ev s2)"
  using assms
  by (cases s1; cases s2; simp add: longer_list_def on_defs Let_def take_map)+

lemma longer_sm_event:
  assumes "longer_list s1 s2"
  shows "longer_list (sm_event ev s1) (sm_event ev s2)"
proof -
  obtain v st1 st2 where s: "s1 = (v, st1)" "s2 = (v, st2)"
    using assms by (cases s1; cases s2) (simp add: longer_list_def)
  have a: "longer_list (v, on_stage ev st1) (v, on_stage ev st2)"
    using assms s by (simp add: longer_list_def on_stage_messages)
  have "longer_list
     (on_error ev (on_done ev (on_message_id ev (on_processed_content ev
         (on_image_url ev (on_content ev (on_image_prompt ev (v, on_stage ev st1))))))))
     (on_error ev (on_done ev (on_message_id ev (on_processed_content ev
         (on_image_url ev (on_content ev (on_image_prompt ev (v, on_stage ev st2))))))))"
    by (intro longer_steps a)
  then show ?thesis
    using a s by (simp add: sm_event_def Let_def longer_list_def)
qed

lemma longer_fold:
  "longer_list s1 s2 \<Longrightarrow> longer_list (fold (sm_try P) ds s1) (fold (sm_try P) ds s2)"
proof (induction ds arbitrary: s1 s2)
  case Nil
  then show ?case by simp
next
  case (Cons d ds)
  have "longer_list (sm_try P d s1) (sm_try P d s2)"
    using Cons.prems longer_sm_event by (simp add: sm_try_def split: option.splits)
  then show ?case using Cons.IH by simp
qed

lemma flags_on_stage:
  "st1\<lparr>isStreaming := isStreaming st2, agentStage := agentStage st2\<rparr> = st2 \<Longrightarrow>
   (on_stage ev st1)\<lparr>isStreaming := isStreaming (on_stage ev st2),
                     agentStage := agentStage (on_stage ev st2)\<rparr> = on_stage ev st2"
proof -
  assume "st1\<lparr>isStreaming := isStreaming st2, agentStage := agentStage st2\<rparr> = st2"
  then obtain a b where e: "st2 = st1\<lparr>isStreaming := a, agentStage := b\<rparr>" by metis
  show ?thesis unfolding e by (simp add: on_stage_def Let_def)
qed

lemma flags_steps:
  assumes "other_flags s1 s2"
  shows "other_flags (on_image_prompt ev s1) (on_image_prompt ev s2)"
    and "other_flags (on_content ev s1) (on_content ev s2)"
    and "other_flags (on_image_url ev s1) (on_image_url ev s2)"
    and "other_flags (on_processed_content ev s1) (on_processed_content ev s2)"
    and "other_flags (on_message_id ev s1) (on_message_id ev s2)"
    and "other_flags (on_done ev s1) (on_done ev s2)"
    and "other_flags (on_error ev s1) (on_error ev s2)"
proof -
  obtain v st1 st2 where s: "s1 = (v, st1)" "s2 = (v, st2)"
    using assms by (cases s1; cases s2) (simp add: other_flags_def)
  obtain a b where e: "st2 = st1\<lparr>isStreaming := a, agentStage := b\<rparr>"
    using assms s by (simp add: other_flags_def) metis
  show "other_flags (on_image_prompt ev s1) (on_image_prompt ev s2)"
    unfolding s e by (simp add: other_flags_def on_defs Let_def)
  show "other_flags (on_content ev s1) (on_content ev s2)"
    unfolding s e by (simp add: other_flags_def on_defs Let_def)
  show "other_flags (on_image_url ev s1) (on_image_url ev s2)"
    unfolding s e by (simp add: other_flags_def on_defs Let_def)
  show "other_flags (on_processed_content ev s1) (on_processed_content ev s2)"
    unfolding s e by (simp add: other_flags_def on_defs Let_def)
  show "other_flags (on_message_id ev s1) (on_message_id ev s2)"
    unfolding s e by (simp add: other_flags_def on_defs Let_def)
  show "other_flags (on_done ev s1) (on_done ev s2)"
    unfolding s e by (simp add: other_flags_def on_defs Let_def)
  show "other_flags (on_error ev s1) (on_error ev s2)"
    unfolding s e by (simp add: other_flags_def on_defs Let_def)
qed

lemma flags_sm_event:
  assumes "other_flags s1 s2"
  shows "other_flags (sm_event ev s1) (sm_event ev s2)"
proof -
  obtain v st1 st2 where s: "s1 = (v, st1)" "s2 = (v, st2)"
    using assms by (cases s1; cases s2) (simp add: other_flags_def)
  have a: "other_flags (v, on_stage ev st1) (v, on_stage ev st2)"
    using assms s flags_on_stage [where ?st1.0 = st1 and ?st2.0 = st2 and ev = ev]
    by (simp add: other_flags_def)
  have b: "other_flags
     (on_error ev (on_done ev (on_message_id ev (on_processed_content ev
         (on_image_url ev (on_content ev (on_image_prompt ev (v, on_stage ev st1))))))))
     (on_error ev (on_done ev (on_message_id ev (on_processed_content ev
         (on_image_url ev (on_content ev (on_image_prompt ev (v, on_stage ev st2))))))))"
    by (intro flags_steps a)
  obtain x y where e: "on_stage ev st2 = (on_stage ev st1)\<lparr>isStreaming := x, agentStage := y\<rparr>"
    using a by (simp add: other_flags_def) metis
  show ?thesis
    using b unfolding s by (simp add: sm_event_def Let_def other_flags_def e)
qed

lemma flags_fold:
  "other_flags s1 s2 \<Longrightarrow> other_flags (fold (sm_try P) ds s1) (fold (sm_try P) ds s2)"
proof (induction ds arbitrary: s1 s2)
  case Nil
  then show ?case by simp
next
  case (Cons d ds)
  have "other_flags (sm_try P d s1) (sm_try P d s2)"
    using Cons.prems flags_sm_event by (simp add: sm_try_def split: option.splits)
  then show ?case using Cons.IH by simp
qed

lemma length_steps:
  "length (messages (snd (on_image_prompt ev s))) = length (messages (snd s))"
  "length (messages (snd (on_content ev s))) = length (messages (snd s))"
  "length (messages (snd (on_image_url ev s))) = length (messages (snd s))"
  "length (messages (snd (on_processed_content ev s))) = length (messages (snd s))"
  "length (messages (snd (on_message_id ev s))) = length (messages (snd s))"
  "length (messages (snd (on_done ev s))) = length (messages (snd s))"
  "length (messages (snd (on_error ev s))) = length (messages (snd s))"
  by (cases s; simp add: on_defs Let_def)+

lemma length_sm_event:
  "length (messages (snd (sm_event ev s))) = length (messages (snd s))"
  by (cases s) (simp add: sm_event_def Let_def length_steps on_stage_messages)

lemma length_fold:
  "length (messages (snd (fold (sm_try P) ds (v, st)))) = length (messages st)"
proof (induction ds arbitrary: v st)
  case Nil
  show ?case by simp
next
  case (Cons d ds)
  obtain v1 st1 where a: "sm_try P d (v, st) = (v1, st1)" by force
  have "length (messages st1) = length (messages st)"
  proof (cases "P d")
    case None
    then show ?thesis using a by (simp add: sm_try_def)
  next
    case (Some ev)
    then show ?thesis using a length_sm_event [of ev "(v, st)"] by (simp add: sm_try_def)
  qed
  then show ?case using Cons.IH [of v1 st1] a by simp
qed


text \<open>In sendMessage a new id renames the message in place, and the next delta goes to it.\<close>

lemma list_all_mapI: "(\<And>x. P (f x)) \<Longrightarrow> list_all P (map f xs)"
  by (simp add: list_all_iff)

lemma sm_id_aliasing:
  assumes "i \<noteq> []" and "i \<noteq> assistantMsgId v"
  shows "fst (sm_event (IdAssigned i) (v, st)) = v\<lparr>assistantMsgId := i\<rparr>"
    and "map m_content (messages (snd (sm_event (IdAssigned i) (v, st)))) = map m_content (messages st)"
    and "map m_id (messages (snd (sm_event (IdAssigned i) (v, st)))) =
           map (\<lambda>x. if x = assistantMsgId v then i else x) (map m_id (messages st))"
    and "assistantMsgId v \<notin> set (map m_id (messages (snd (sm_event (IdAssigned i) (v, st)))))"
    and "c \<noteq> [] \<Longrightarrow>
         list_all (\<lambda>m. m_id m \<noteq> i \<or> m_content m = assistantContent v @ c)
           (messages (snd (fold sm_event [IdAssigned i, ContentDelta c] (v, st))))"
proof -
  let ?f = "\<lambda>m. if m_id m = assistantMsgId v then m\<lparr>m_id := i\<rparr> else m"
  have e: "sm_event (IdAssigned i) (v, st) =
      (v\<lparr>assistantMsgId := i\<rparr>, st\<lparr>messages := map ?f (messages st)\<rparr>)"
    using assms by (simp add: sm_IdAssigned)
  show "fst (sm_event (IdAssigned i) (v, st)) = v\<lparr>assistantMsgId := i\<rparr>"
    using e by simp
  show "map m_content (messages (snd (sm_event (IdAssigned i) (v, st)))) = map m_content (messages st)"
    using e by (simp add: comp_def if_distrib)
  show "map m_id (messages (snd (sm_event (IdAssigned i) (v, st)))) =
           map (\<lambda>x. if x = assistantMsgId v then i else x) (map m_id (messages st))"
    using e by (simp add: comp_def if_distrib)
  show "assistantMsgId v \<notin> set (map m_id (messages (snd (sm_event (IdAssigned i) (v, st)))))"
    unfolding e using assms(2) by (auto split: if_splits)
  show "list_all (\<lambda>m. m_id m \<noteq> i \<or> m_content m = assistantContent v @ c)
           (messages (snd (fold sm_event [IdAssigned i, ContentDelta c] (v, st))))"
    if "c \<noteq> []"
  proof -
    have "sm_event (ContentDelta c) (v\<lparr>assistantMsgId := i\<rparr>, st\<lparr>messages := map ?f (messages st)\<rparr>) =
        (v\<lparr>assistantMsgId := i, assistantContent := assistantContent v @ c\<rparr>,
         st\<lparr>messages := map (\<lambda>m. if m_id m = i then m\<lparr>m_content := assistantContent v @ c\<rparr> else m)
              (map ?f (messages st))\<rparr>)"
      using that by (simp add: sm_ContentDelta)
    moreover have "list_all (\<lambda>m. m_id m \<noteq> i \<or> m_content m = assistantContent v @ c)
        (map (\<lambda>m. if m_id m = i then m\<lparr>m_content := assistantContent v @ c\<rparr> else m)
           (map ?f (messages st)))"
      by (rule list_all_mapI) simp
    ultimately show ?thesis
      using e by simp
  qed
qed

section \<open>The actions as folds over events\<close>

text \<open>
  With a response that is read to its end, each action leaves what its handler leaves
  after the events of the frames that parse, and then clears \<^verbatim>\<open>isStreaming\<close>.
\<close>

lemma sendMessage_as_events:
  assumes "ok res" and "read_error res = None"
  shows "sendMessage P clk content (Resolved res) st =
           (snd (fold sm_event (List.map_filter P (sm_frames (body res)))
                   (sm_begin clk content st)))\<lparr>isStreaming := False, agentStage := None\<rparr>"
proof -
  obtain r s1 where l: "sm_loop (sm_try P) (body res) (sm_reader_new, sm_begin clk content st) = (r, s1)"
    by (meson surj_pair)
  have "s1 = fold sm_event (List.map_filter P (sm_frames (body res))) (sm_begin clk content st)"
    using sm_loop_frames [of "sm_try P" "body res" "sm_begin clk content st"] l
    by (simp add: sm_try_fold)
  then show ?thesis using assms l by (simp add: sendMessage_def Let_def)
qed

lemma regenerateMessage_as_events:
  assumes "activeSession st = Some a" and "messageId = Some i" and "i \<noteq> []"
    and "findIndex (\<lambda>m. m_id m = i) (messages st) = Some k"
    and "ok res" and "read_error res = None"
  shows "regenerateMessage P now messageId (Resolved res) st =
           ((snd (fold rg_event (List.map_filter P (rg_frames (body res)))
                    (rg_begin now k (st\<lparr>isStreaming := True\<rparr>))))\<lparr>isStreaming := False\<rparr>,
            [Post (js ''/api/chat/sessions/'' @ s_id a @ js ''/regenerate/'' @ i)])"
proof -
  let ?s0 = "rg_begin now k (st\<lparr>isStreaming := True\<rparr>)"
  obtain td s1 where l: "rg_loop (rg_try P) (body res) (TextDecoder_new, ?s0) = (td, s1)"
    by (meson surj_pair)
  have "s1 = fold rg_event (List.map_filter P (rg_frames (body res))) ?s0"
    using rg_loop_frames [of "rg_try P" "body res" ?s0] l by (simp add: rg_try_fold)
  then show ?thesis using assms l by (simp add: regenerateMessage_def Let_def)
qed

text \<open>
  A chunk boundary inside the three bytes of U+26A0: sendMessage's decoder carries the
  pending bytes over, regenerateMessage's replaces each part by U+FFFD.
\<close>

lemma cut_inside_character:
  "sm_frames [ascii ''data: '' @ [0xE2, 0x9A], [0xA0, 0x0A]] = [[0x26A0]]
   \<and> rg_frames [ascii ''data: '' @ [0xE2, 0x9A], [0xA0, 0x0A]] = [[0xFFFD]]"
  by (simp add: run_reader)

section \<open>The frames of a stream, from its text\<close>

lemma sm_line_payloads: "fold (sm_line (\<lambda>d ds. ds @ [d])) ls [] = sm_payloads ls"
proof (induction ls)
  case Nil
  show ?case by (simp add: sm_payloads_def data_lines_def)
next
  case (Cons l ls)
  have "fold (sm_line (\<lambda>d ds. ds @ [d])) (l # ls) [] =
        sm_line (\<lambda>d ds. ds @ [d]) l [] @ fold (sm_line (\<lambda>d ds. ds @ [d])) ls []"
    using sm_line_record [of ls "sm_line (\<lambda>d ds. ds @ [d]) l []"] by simp
  also have "\<dots> = sm_line (\<lambda>d ds. ds @ [d]) l [] @ sm_payloads ls"
    using Cons.IH by simp
  also have "\<dots> = sm_payloads (l # ls)"
    by (simp add: sm_line_def sm_payloads_def data_lines_def Let_def)
  finally show ?case .
qed

lemma sm_frames_text:
  "sm_frames chunks =
     sm_payloads (butlast (split_nl (snd (decode True TextDecoder_new (concat chunks)))))"
proof -
  obtain td t where d: "decode True TextDecoder_new (concat chunks) = (td, t)"
    by (meson surj_pair)
  have "sm_frames chunks = sm_frames [concat chunks]" by (rule sm_frames_chunking)
  also have "\<dots> = fold (sm_line (\<lambda>d ds. ds @ [d])) (butlast (split_nl t)) []"
    using d by (simp add: sm_frames_def sm_loop_def sm_chunk_def sm_reader_new_def Let_def)
  finally show ?thesis using d by (simp add: sm_line_payloads)
qed

lemma rg_line_payloads: "fold (rg_line (\<lambda>d ds. ds @ [d])) ls [] = rg_payloads ls"
proof (induction ls)
  case Nil
  show ?case by (simp add: rg_payloads_def data_lines_def)
next
  case (Cons l ls)
  have "fold (rg_line (\<lambda>d ds. ds @ [d])) (l # ls) [] =
        rg_line (\<lambda>d ds. ds @ [d]) l [] @ fold (rg_line (\<lambda>d ds. ds @ [d])) ls []"
    using rg_line_record [of ls "rg_line (\<lambda>d ds. ds @ [d]) l []"] by simp
  also have "\<dots> = rg_line (\<lambda>d ds. ds @ [d]) l [] @ rg_payloads ls"
    using Cons.IH by simp
  also have "\<dots> = rg_payloads (l # ls)"
    by (simp add: rg_line_def rg_payloads_def data_lines_def Let_def)
  finally show ?case .
qed

lemma rg_payloads_append: "rg_payloads (a @ b) = rg_payloads a @ rg_payloads b"
  by (simp add: rg_payloads_def data_lines_def)

lemma decode_flush_fresh:
  "\<not> do_not_flush td \<Longrightarrow> decode False td c = decode False TextDecoder_new c"
  by (simp add: decode_def TextDecoder_new_def)

lemma decode_flush_flag: "\<not> do_not_flush (fst (decode False td c))"
  by (simp add: decode_def split: prod.splits)

lemma rg_loop_text:
  "\<not> do_not_flush td \<Longrightarrow>
   snd (rg_loop (\<lambda>d ds. ds @ [d]) chunks (td, acc)) =
     acc @ rg_payloads (concat (map (\<lambda>c. split_nl (snd (decode False TextDecoder_new c))) chunks))"
proof (induction chunks arbitrary: td acc)
  case Nil
  show ?case by (simp add: rg_loop_def rg_payloads_def data_lines_def)
next
  case (Cons c cs)
  obtain td' t where d: "decode False TextDecoder_new c = (td', t)" by (meson surj_pair)
  have d': "decode False td c = (td', t)" using decode_flush_fresh [OF Cons.prems] d by simp
  have f: "\<not> do_not_flush td'" using decode_flush_flag [of TextDecoder_new c] d by simp
  have "rg_chunk (\<lambda>d ds. ds @ [d]) c (td, acc) = (td', acc @ rg_payloads (split_nl t))"
    using d' rg_line_record [of "split_nl t" acc] by (simp add: rg_chunk_def rg_line_payloads)
  then show ?case
    using Cons.IH [OF f, of "acc @ rg_payloads (split_nl t)"] d
    by (simp add: rg_loop_def rg_payloads_append)
qed

lemma rg_frames_text:
  "rg_frames chunks =
     rg_payloads (concat (map (\<lambda>c. split_nl (snd (decode False TextDecoder_new c))) chunks))"
  using rg_loop_text [of TextDecoder_new chunks "[]"]
  by (simp add: rg_frames_def TextDecoder_new_def)

lemmas run_text =
  startsWith_def slice_js_def trim_def is_white_def ascii_def js_def
  decode_def TextDecoder_new_def utf8_new_def utf8_handler_def utf8_lead_def utf8_end_def
  utf16_def sm_payloads_def rg_payloads_def data_lines_def

lemma clipped_payloads:
  \<open>sm_payloads (butlast (split_nl (snd (decode True TextDecoder_new (concat clipped_stream))))) =
     [js ''{"content": "ok"'', js ''{"type":"content","content":"ok"}'']\<close>
  \<open>rg_payloads (concat (map (\<lambda>c. split_nl (snd (decode False TextDecoder_new c))) clipped_stream)) =
     [js ''{"content": "ok"'', js ''{"type":"content","content":"ok"}'']\<close>
  by (simp_all add: clipped_stream_def run_text)

lemmas run_parse = wire_parse_def json_members.simps json_value_def json_string.simps consed_def
  json_escape_def hex_digit_def json_ws_def set_member_def set_string_def string_field_def
  startsWith_def no_event_def js_def

lemma wire_parse_samples:
  \<open>wire_parse (js ''{"content": "ok"'') = None\<close>
  \<open>wire_parse (js ''{"type":"content","content":"ok",}'') = None\<close>
  \<open>wire_parse (js ''null'') = None\<close>
  \<open>wire_parse (js '' {} '') = Some no_event\<close>
  \<open>wire_parse (js ''{"type":"content", "content":"o/k", "done": true, "x": null, "url": false }  '') =
     Some (no_event\<lparr>ev_type := Some (js ''content''), ev_content := Some (js ''o/k''),
                     ev_done := True\<rparr>)\<close>
  by (simp_all add: run_parse)

lemma clipped_parse:
  \<open>wire_parse (js ''{"content": "ok"'') = None\<close>
  \<open>wire_parse (js ''{"type":"content","content":"ok"}'') = Some (ContentDelta (js ''ok''))\<close>
  by (simp_all add: run_parse ContentDelta_def)

section \<open>The list is rewritten message by message\<close>

lemma messagewiseI:
  "(\<And>v st. fst (F (v, st)) = V v \<and> messages (snd (F (v, st))) = map (G v) (messages st))
   \<Longrightarrow> messagewise F"
  unfolding messagewise_def by blast

lemma messagewise_comp:
  assumes "messagewise F" and "messagewise G"
  shows "messagewise (\<lambda>s. G (F s))"
  unfolding messagewise_def
proof
  fix v
  obtain v1 f where F: "\<And>st. fst (F (v, st)) = v1 \<and> messages (snd (F (v, st))) = map f (messages st)"
    using assms(1) unfolding messagewise_def by blast
  obtain v2 g where G: "\<And>st. fst (G (v1, st)) = v2 \<and> messages (snd (G (v1, st))) = map g (messages st)"
    using assms(2) unfolding messagewise_def by blast
  have "\<forall>st. fst (G (F (v, st))) = v2 \<and> messages (snd (G (F (v, st)))) = map (g \<circ> f) (messages st)"
  proof
    fix st
    have e: "F (v, st) = (v1, snd (F (v, st)))" using F [of st] by (simp add: prod_eq_iff)
    show "fst (G (F (v, st))) = v2 \<and> messages (snd (G (F (v, st)))) = map (g \<circ> f) (messages st)"
      using G [of "snd (F (v, st))"] F [of st] e by simp
  qed
  then show "\<exists>v' f. \<forall>st. fst (G (F (v, st))) = v' \<and> messages (snd (G (F (v, st)))) = map f (messages st)"
    by blast
qed

lemma messagewise_id: "messagewise (\<lambda>s. s)"
  by (rule messagewiseI [where V = "\<lambda>v. v" and G = "\<lambda>v m. m"]) simp

lemma messagewise_steps:
  "messagewise (on_image_prompt ev)"
  "messagewise (on_content ev)"
  "messagewise (on_image_url ev)"
  "messagewise (on_processed_content ev)"
  "messagewise (on_message_id ev)"
  "messagewise (on_done ev)"
  "messagewise (on_error ev)"
proof -
  show "messagewise (on_image_prompt ev)"
    by (rule messagewiseI [where V = "\<lambda>v. v" and G = "\<lambda>v m. m"]) (auto simp: on_image_prompt_def)
  show "messagewise (on_content ev)"
    by (rule messagewiseI [where V = "\<lambda>v. fst (on_content ev (v, store_init))"
          and G = "\<lambda>v m. if ev_type ev = Some (js ''content'') \<and> truthy (ev_content ev)
                \<and> m_id m = assistantMsgId v
              then m\<lparr>m_content := assistantContent v @ the (ev_content ev)\<rparr> else m"])
      (auto simp: on_content_def Let_def)
  show "messagewise (on_image_url ev)"
    by (rule messagewiseI [where V = "\<lambda>v. v"
          and G = "\<lambda>v m. if ev_type ev = Some (js ''image'') \<and> truthy (ev_url ev)
                \<and> m_id m = assistantMsgId v
              then m\<lparr>m_image_url := ev_url ev\<rparr> else m"])
      (auto simp: on_image_url_def)
  show "messagewise (on_processed_content ev)"
    by (rule messagewiseI [where V = "\<lambda>v. v"
          and G = "\<lambda>v m. if ev_type ev = Some (js ''processed_content'') \<and> truthy (ev_content ev)
                \<and> m_id m = assistantMsgId v
              then m\<lparr>m_content := the (ev_content ev)\<rparr> else m"])
      (auto simp: on_processed_content_def)
  show "messagewise (on_message_id ev)"
    by (rule messagewiseI [where V = "\<lambda>v. fst (on_message_id ev (v, store_init))"
          and G = "\<lambda>v m. if truthy (ev_message_id ev) \<and> ev_message_id ev \<noteq> Some (assistantMsgId v)
                \<and> m_id m = assistantMsgId v
              then m\<lparr>m_id := the (ev_message_id ev)\<rparr> else m"])
      (auto simp: on_message_id_def Let_def)
  show "messagewise (on_done ev)"
    by (rule messagewiseI [where V = "\<lambda>v. v"
          and G = "\<lambda>v m. if ev_done ev \<and> truthy (ev_processed_content ev)
                \<and> m_id m = assistantMsgId v
              then m\<lparr>m_content := the (ev_processed_content ev)\<rparr> else m"])
      (auto simp: on_done_def)
  show "messagewise (on_error ev)"
    by (rule messagewiseI [where V = "\<lambda>v. v"
          and G = "\<lambda>v m. if truthy (ev_error ev) \<and> m_id m = assistantMsgId v
              then m\<lparr>m_content := error_text (the (ev_error ev)), m_isError := True\<rparr> else m"])
      (auto simp: on_error_def)
qed

lemma messagewise_sm_event: "messagewise (sm_event ev)"
proof -
  let ?early = "(ev_type ev = Some (js ''director_chunk'') \<and> truthy (ev_content ev))
      \<or> ev_type ev = Some (js ''outline'')
      \<or> (ev_type ev = Some (js ''paint_chunk'') \<and> truthy (ev_content ev))"
  show ?thesis
  proof (cases ?early)
    case True
    show ?thesis
      by (rule messagewiseI [where V = "\<lambda>v. v" and G = "\<lambda>v m. m"])
        (use True in \<open>auto simp: sm_event_def Let_def on_stage_messages\<close>)
  next
    case False
    have a: "messagewise (\<lambda>s. (fst s, on_stage ev (snd s)))"
      by (rule messagewiseI [where V = "\<lambda>v. v" and G = "\<lambda>v m. m"]) (simp add: on_stage_messages)
    note c1 = messagewise_comp [OF a messagewise_steps(1) [of ev]]
    note c2 = messagewise_comp [OF c1 messagewise_steps(2) [of ev]]
    note c3 = messagewise_comp [OF c2 messagewise_steps(3) [of ev]]
    note c4 = messagewise_comp [OF c3 messagewise_steps(4) [of ev]]
    note c5 = messagewise_comp [OF c4 messagewise_steps(5) [of ev]]
    note c6 = messagewise_comp [OF c5 messagewise_steps(6) [of ev]]
    have "messagewise (\<lambda>s. on_error ev (on_done ev (on_message_id ev (on_processed_content ev
         (on_image_url ev (on_content ev (on_image_prompt ev (fst s, on_stage ev (snd s)))))))))"
      by (rule messagewise_comp [OF c6 messagewise_steps(7) [of ev]])
    moreover have "sm_event ev = (\<lambda>s. on_error ev (on_done ev (on_message_id ev (on_processed_content ev
         (on_image_url ev (on_content ev (on_image_prompt ev (fst s, on_stage ev (snd s)))))))))"
      using False by (auto simp: sm_event_def Let_def fun_eq_iff)
    ultimately show ?thesis by simp
  qed
qed

lemma messagewise_sm_try: "messagewise (sm_try P d)"
proof (cases "P d")
  case None
  then have "sm_try P d = (\<lambda>s. s)" by (simp add: sm_try_def fun_eq_iff)
  then show ?thesis using messagewise_id by simp
next
  case (Some ev)
  then have "sm_try P d = sm_event ev" by (simp add: sm_try_def fun_eq_iff)
  then show ?thesis using messagewise_sm_event by simp
qed

lemma messagewise_fold: "messagewise (fold (sm_try P) ds)"
proof (induction ds)
  case Nil
  have "fold (sm_try P) [] = (\<lambda>s. s)" by (simp add: fun_eq_iff)
  then show ?case using messagewise_id by simp
next
  case (Cons d ds)
  have "fold (sm_try P) (d # ds) = (\<lambda>s. fold (sm_try P) ds (sm_try P d s))"
    by (simp add: fun_eq_iff)
  then show ?case using messagewise_comp [OF messagewise_sm_try Cons.IH, of P d] by simp
qed

section \<open>Stage chunks\<close>

lemma on_stage_explicit:
  "on_stage ev st =
     st\<lparr>agentStage := (if truthy (ev_stage ev) then ev_stage ev else agentStage st),
        showDirectorPopup := (ev_stage ev = Some (js ''director'') \<or> showDirectorPopup st),
        showPaintDirectorPopup :=
          (ev_stage ev = Some (js ''paint_director'') \<or> showPaintDirectorPopup st),
        directorOutput := (if ev_stage ev = Some (js ''director'') then [] else directorOutput st),
        paintDirectorOutput :=
          (if ev_stage ev = Some (js ''paint_director'') then [] else paintDirectorOutput st)\<rparr>"
  by (cases "ev_stage ev") (auto simp: on_stage_def Let_def js_def)

lemma stage_names:
  "js ''director'' \<noteq> []" "js ''paint_director'' \<noteq> []"
  "js ''director'' \<noteq> js ''paint_director''" "js ''director_chunk'' \<noteq> js ''paint_chunk''"
  "js ''paint_chunk'' \<noteq> js ''director_chunk''"
  by (simp_all add: js_def)

lemma sm_event_chunk_store:
  assumes "ev_type ev = Some (js ''director_chunk'') \<or> ev_type ev = Some (js ''paint_chunk'')"
    and "ev_content ev = Some c" and "c \<noteq> []"
  shows "sm_event ev (v, st) =
           (v, st\<lparr>agentStage := (if truthy (ev_stage ev) then ev_stage ev else agentStage st),
                  showDirectorPopup := (ev_stage ev = Some (js ''director'') \<or> showDirectorPopup st),
                  showPaintDirectorPopup :=
                    (ev_stage ev = Some (js ''paint_director'') \<or> showPaintDirectorPopup st),
                  directorOutput :=
                    (if ev_stage ev = Some (js ''director'') then [] else directorOutput st)
                    @ (if ev_type ev = Some (js ''director_chunk'') then c else []),
                  paintDirectorOutput :=
                    (if ev_stage ev = Some (js ''paint_director'') then [] else paintDirectorOutput st)
                    @ (if ev_type ev = Some (js ''paint_chunk'') then c else [])\<rparr>)"
proof (cases "ev_type ev = Some (js ''director_chunk'')")
  case True
  show ?thesis
    unfolding sm_event_chunk(1) [OF assms(2,3) True, of v st]
    using True stage_names(4) by (simp add: on_stage_explicit [of ev st])
next
  case False
  then have p: "ev_type ev = Some (js ''paint_chunk'')" using assms(1) by simp
  show ?thesis
    unfolding sm_event_chunk(2) [OF assms(2,3) p, of v st]
    using p stage_names(5) by (simp add: on_stage_explicit [of ev st])
qed

lemma js_append: "js a @ js b = js (a @ b)"
  by (simp add: js_def)

section \<open>Claims\<close>

text \<open>
  C1. Frame reassembly: a stream of complete \<^verbatim>\<open>data:\<close> lines, cut into chunks
  anywhere, gives the same frames as the uncut stream, in sendMessage and in
  regenerateMessage. The loop of regenerateMessage keeps no buffer: with the one line
  \<^verbatim>\<open>data: {"content":"Hi"}\<close> cut inside its payload the parser is handed the truncated
  payload, and with the line cut inside its prefix no frame is processed at all, where
  the uncut stream gives the one frame, as the loop of sendMessage does for either cut.
\<close>

theorem regenerate_loses_cut_frame:
  \<open>rg_frames [ascii ''data: {"content":"H'', ascii ''i"}'' @ [0x0A]] = [js ''{"content":"H'']
   \<and> rg_frames [ascii ''dat'', ascii ''a: {"content":"Hi"}'' @ [0x0A]] = []
   \<and> rg_frames [ascii ''data: {"content":"Hi"}'' @ [0x0A]] = [js ''{"content":"Hi"}'']
   \<and> sm_frames [ascii ''data: {"content":"H'', ascii ''i"}'' @ [0x0A]] = [js ''{"content":"Hi"}'']
   \<and> sm_frames [ascii ''dat'', ascii ''a: {"content":"Hi"}'' @ [0x0A]] = [js ''{"content":"Hi"}'']\<close>
  by (simp add: run_reader)

text \<open>
  C2. Cancellation race: once stopStreaming has run, or a second turn has begun, while a
  first turn is streaming, nothing of the first turn is applied to the store any more.
  As amended: neither stopStreaming nor the beginning of a second turn, by sendMessage
  or by regenerateMessage, stops the first call's loop. Whatever the store holds by
  then, the chunks that the first call reads afterwards leave its variables the same and
  rewrite each message then in the list by one and the same function, which depends on
  the call's variables and on the chunks only. So after stopStreaming the resulting
  store differs in \<^verbatim>\<open>isStreaming\<close> and \<^verbatim>\<open>agentStage\<close> at most from what it would have
  been; after sendMessage has begun a second turn the messages that were there before
  it are rewritten as without it; and after regenerateMessage has cut the list and
  renamed and emptied its target, it is that list which is rewritten, by the same
  function.
\<close>

theorem later_chunks_still_applied:
  "\<exists>v' f. \<forall>st clk content now k.
     fst (snd (sm_loop (sm_try P) chunks (r, v, st))) = v'
   \<and> messages (snd (snd (sm_loop (sm_try P) chunks (r, v, st)))) = map f (messages st)
   \<and> fst (snd (sm_loop (sm_try P) chunks (r, v, stopStreaming st))) =
       fst (snd (sm_loop (sm_try P) chunks (r, v, st)))
   \<and> (snd (snd (sm_loop (sm_try P) chunks (r, v, stopStreaming st))))
        \<lparr>isStreaming := isStreaming (snd (snd (sm_loop (sm_try P) chunks (r, v, st)))),
         agentStage := agentStage (snd (snd (sm_loop (sm_try P) chunks (r, v, st))))\<rparr> =
     snd (snd (sm_loop (sm_try P) chunks (r, v, st)))
   \<and> take (length (messages st))
        (messages (snd (snd (sm_loop (sm_try P) chunks (r, v, snd (sm_begin clk content st)))))) =
     messages (snd (snd (sm_loop (sm_try P) chunks (r, v, st))))
   \<and> messages (snd (snd (sm_loop (sm_try P) chunks (r, v, snd (rg_begin now k st))))) =
     map f (take (k + 1)
       (map_at k (\<lambda>m. m\<lparr>m_id := js ''regen-'' @ now, m_content := []\<rparr>) (messages st)))"
proof -
  let ?ds = "snd (sm_loop (\<lambda>d ds. ds @ [d]) chunks (r, []))"
  obtain v' f where w: "\<And>st. fst (fold (sm_try P) ?ds (v, st)) = v'
      \<and> messages (snd (fold (sm_try P) ?ds (v, st))) = map f (messages st)"
    using messagewise_fold [of P ?ds] unfolding messagewise_def by blast
  have "\<forall>st clk content now k.
     fst (snd (sm_loop (sm_try P) chunks (r, v, st))) = v'
   \<and> messages (snd (snd (sm_loop (sm_try P) chunks (r, v, st)))) = map f (messages st)
   \<and> fst (snd (sm_loop (sm_try P) chunks (r, v, stopStreaming st))) =
       fst (snd (sm_loop (sm_try P) chunks (r, v, st)))
   \<and> (snd (snd (sm_loop (sm_try P) chunks (r, v, stopStreaming st))))
        \<lparr>isStreaming := isStreaming (snd (snd (sm_loop (sm_try P) chunks (r, v, st)))),
         agentStage := agentStage (snd (snd (sm_loop (sm_try P) chunks (r, v, st))))\<rparr> =
     snd (snd (sm_loop (sm_try P) chunks (r, v, st)))
   \<and> take (length (messages st))
        (messages (snd (snd (sm_loop (sm_try P) chunks (r, v, snd (sm_begin clk content st)))))) =
     messages (snd (snd (sm_loop (sm_try P) chunks (r, v, st))))
   \<and> messages (snd (snd (sm_loop (sm_try P) chunks (r, v, snd (rg_begin now k st))))) =
     map f (take (k + 1)
       (map_at k (\<lambda>m. m\<lparr>m_id := js ''regen-'' @ now, m_content := []\<rparr>) (messages st)))"
  proof (intro allI)
    fix st clk content now k
    have f: "other_flags (v, stopStreaming st) (v, st)"
      by (simp add: other_flags_def stopStreaming_def)
    have l: "longer_list (v, snd (sm_begin clk content st)) (v, st)"
      by (simp add: longer_list_def sm_begin_def Let_def)
    have l': "length (messages (snd (fold (sm_try P) ?ds (v, st)))) = length (messages st)"
      by (rule length_fold)
    have g: "messages (snd (rg_begin now k st)) =
        take (k + 1) (map_at k (\<lambda>m. m\<lparr>m_id := js ''regen-'' @ now, m_content := []\<rparr>) (messages st))"
      by (simp add: rg_begin_def Let_def)
    show "fst (snd (sm_loop (sm_try P) chunks (r, v, st))) = v'
   \<and> messages (snd (snd (sm_loop (sm_try P) chunks (r, v, st)))) = map f (messages st)
   \<and> fst (snd (sm_loop (sm_try P) chunks (r, v, stopStreaming st))) =
       fst (snd (sm_loop (sm_try P) chunks (r, v, st)))
   \<and> (snd (snd (sm_loop (sm_try P) chunks (r, v, stopStreaming st))))
        \<lparr>isStreaming := isStreaming (snd (snd (sm_loop (sm_try P) chunks (r, v, st)))),
         agentStage := agentStage (snd (snd (sm_loop (sm_try P) chunks (r, v, st))))\<rparr> =
     snd (snd (sm_loop (sm_try P) chunks (r, v, st)))
   \<and> take (length (messages st))
        (messages (snd (snd (sm_loop (sm_try P) chunks (r, v, snd (sm_begin clk content st)))))) =
     messages (snd (snd (sm_loop (sm_try P) chunks (r, v, st))))
   \<and> messages (snd (snd (sm_loop (sm_try P) chunks (r, v, snd (rg_begin now k st))))) =
     map f (take (k + 1)
       (map_at k (\<lambda>m. m\<lparr>m_id := js ''regen-'' @ now, m_content := []\<rparr>) (messages st)))"
      using flags_fold [OF f, of P ?ds] longer_fold [OF l, of P ?ds] l'
        w [of st] w [of "stopStreaming st"] w [of "snd (rg_begin now k st)"] g
      by (simp add: sm_loop_fold [of "sm_try P"] other_flags_def longer_list_def)
  qed
  then show ?thesis by blast
qed

text \<open>
  C2, the claim as stated fails. The first turn has shown \<^verbatim>\<open>Once\<close> when stopStreaming
  runs. The delta \<^verbatim>\<open> upon\<close> that its loop handles next still turns the message into
  \<^verbatim>\<open>Once upon\<close>, and so it does when a second turn has appended its two messages in
  between. When instead regenerateMessage has begun on the message, with \<^verbatim>\<open>isStreaming\<close>
  true again and no image listed, an image and the completion of the first turn still
  list the image and clear \<^verbatim>\<open>isStreaming\<close>.
\<close>

theorem cancelled_turn_still_writes:
  "map m_content (messages (stopStreaming (snd turn_A))) = [js ''Tell me a story'', js ''Once'']
   \<and> map m_content (messages (snd (sm_event (ContentDelta (js '' upon''))
         (fst turn_A, stopStreaming (snd turn_A))))) = [js ''Tell me a story'', js ''Once upon'']
   \<and> map m_content (messages (snd (sm_begin clock2 (js ''Again'') (stopStreaming (snd turn_A))))) =
         [js ''Tell me a story'', js ''Once'', js ''Again'', []]
   \<and> map m_content (messages (snd (sm_event (ContentDelta (js '' upon''))
         (fst turn_A, snd (sm_begin clock2 (js ''Again'') (stopStreaming (snd turn_A))))))) =
         [js ''Tell me a story'', js ''Once upon'', js ''Again'', []]
   \<and> isStreaming (snd (rg_begin (js ''7'') 1 ((stopStreaming (snd turn_A))\<lparr>isStreaming := True\<rparr>)))
   \<and> sessionImages (snd (rg_begin (js ''7'') 1 ((stopStreaming (snd turn_A))\<lparr>isStreaming := True\<rparr>))) = []
   \<and> \<not> isStreaming (snd (fold sm_event [ImageReady (js ''/img/1.png''), Done None]
         (fst turn_A, snd (rg_begin (js ''7'') 1 ((stopStreaming (snd turn_A))\<lparr>isStreaming := True\<rparr>)))))
   \<and> sessionImages (snd (fold sm_event [ImageReady (js ''/img/1.png''), Done None]
         (fst turn_A, snd (rg_begin (js ''7'') 1 ((stopStreaming (snd turn_A))\<lparr>isStreaming := True\<rparr>))))) =
       [\<lparr>img_url = js ''/img/1.png'', img_messageId = js ''assistant-2''\<rparr>]"
  by (simp add: turn_A_def sm_ContentDelta sm_ImageReady sm_Done sm_begin_def stopStreaming_def
      store_init_def clock1_def clock2_def rg_begin_def map_at_def js_def Let_def)

text \<open>
  C3. Id aliasing: after a record with a new \<^verbatim>\<open>message_id\<close> the message carries that id
  in place, and later deltas go to it, in sendMessage and in regenerateMessage. The loop
  of regenerateMessage only assigns \<^verbatim>\<open>newMsgId\<close> (line 553) and never rewrites the list:
  after \<^verbatim>\<open>srv-99\<close> is assigned the message still carries \<^verbatim>\<open>regen-7\<close>, and the delta
  \<^verbatim>\<open>Hi\<close> that follows reaches no message. The same two events in sendMessage rename the
  message and fill it.
\<close>

theorem regenerate_keeps_provisional_id:
  "map m_id (messages (snd (fold rg_event [IdAssigned (js ''srv-99''), rg_ContentDelta (js ''Hi'')]
       (rg_begin (js ''7'') 1 (store_init\<lparr>messages := two_messages\<rparr>)))))
     = [js ''u1'', js ''regen-7'']
   \<and> map m_content (messages (snd (fold rg_event [IdAssigned (js ''srv-99''), rg_ContentDelta (js ''Hi'')]
       (rg_begin (js ''7'') 1 (store_init\<lparr>messages := two_messages\<rparr>)))))
     = [js ''hello'', []]
   \<and> map m_id (messages (snd (fold sm_event [IdAssigned (js ''srv-99''), ContentDelta (js ''Hi'')]
       (sm_begin clock1 (js ''hello'') store_init))))
     = [js ''temp-1'', js ''srv-99'']
   \<and> map m_content (messages (snd (fold sm_event [IdAssigned (js ''srv-99''), ContentDelta (js ''Hi'')]
       (sm_begin clock1 (js ''hello'') store_init))))
     = [js ''hello'', js ''Hi'']"
  by (simp add: rg_IdAssigned rg_ContentDelta rg_begin_def map_at_def two_messages_def
      sm_IdAssigned sm_ContentDelta sm_begin_def store_init_def clock1_def js_def Let_def)

text \<open>
  C4. A failure after deltas leaves the message flagged as an error, shows the error
  text, and keeps the content accumulated so far. As amended: after any deltas, a record
  with an \<^verbatim>\<open>error\<close> that is not a stage chunk or an outline leaves the message with
  \<^verbatim>\<open>isError\<close> true and with the warning sign, \<^verbatim>\<open>Error:\<close> and the error text as its whole
  content; the content accumulated from the deltas is replaced by it.
\<close>

theorem failure_shows_error_text:
  assumes "ev_error ev = Some e" and "e \<noteq> []"
    and "ev_type ev \<noteq> Some (js ''director_chunk'')" and "ev_type ev \<noteq> Some (js ''outline'')"
    and "ev_type ev \<noteq> Some (js ''paint_chunk'')"
  shows "m_isError (last (messages (snd (fold sm_event (map ContentDelta ds @ [ev])
            (sm_begin clk content st)))))
       \<and> m_content (last (messages (snd (fold sm_event (map ContentDelta ds @ [ev])
            (sm_begin clk content st))))) = error_text e"
proof -
  obtain v1 st1 where d: "fold sm_event (map ContentDelta ds) (sm_begin clk content st) = (v1, st1)"
    by force
  have t: "tracked_last (v1, st1)"
    using tracked_fold [OF tracked_sm_begin, of "map ContentDelta ds" clk content st] d by simp
  have t1: "tracked_last (v1, on_stage ev st1)"
    using t by (simp add: tracked_last_def on_stage_messages)
  let ?s = "on_done ev (on_message_id ev (on_processed_content ev
       (on_image_url ev (on_content ev (on_image_prompt ev (v1, on_stage ev st1))))))"
  have "tracked_last ?s" by (intro tracked_steps t1)
  then have "m_content (last (messages (snd (on_error ev ?s)))) = error_text e
       \<and> m_isError (last (messages (snd (on_error ev ?s))))"
    using on_error_content assms(1,2) by blast
  then show ?thesis
    using d sm_event_late [OF assms(3-5), of v1 st1] by simp
qed

text \<open>C4 at the deltas \<^verbatim>\<open>Once\<close>, \<^verbatim>\<open> upon\<close> and the failure \<^verbatim>\<open>boom\<close>.\<close>

theorem failure_shows_error_text_witness:
  "m_isError (last (messages (snd (fold sm_event
       (map ContentDelta [js ''Once'', js '' upon''] @ [Failure (js ''boom'')])
       (sm_begin clock1 (js ''Tell me a story'') store_init)))))
   \<and> m_content (last (messages (snd (fold sm_event
       (map ContentDelta [js ''Once'', js '' upon''] @ [Failure (js ''boom'')])
       (sm_begin clock1 (js ''Tell me a story'') store_init)))))
     = error_text (js ''boom'')"
proof -
  have a: "ev_error (Failure (js ''boom'')) = Some (js ''boom'')"
    and b: "js ''boom'' \<noteq> []"
    and c: "ev_type (Failure (js ''boom'')) \<noteq> Some (js ''director_chunk'')"
      "ev_type (Failure (js ''boom'')) \<noteq> Some (js ''outline'')"
      "ev_type (Failure (js ''boom'')) \<noteq> Some (js ''paint_chunk'')"
    by (simp_all add: Failure_def no_event_def js_def)
  show ?thesis by (rule failure_shows_error_text [OF a b c])
qed

text \<open>
  C4, the claim as stated fails: after the delta \<^verbatim>\<open>Once upon\<close> and a failure the
  content is the error text, not \<^verbatim>\<open>Once upon\<close>.
\<close>

theorem failure_discards_partial_content:
  "m_content (last (messages (snd (fold sm_event
       [ContentDelta (js ''Once upon''), Failure (js ''boom'')]
       (sm_begin clock1 (js ''Tell me a story'') store_init)))))
     = [0x26A0, 0xFE0F] @ js '' Error: boom''
   \<and> m_content (last (messages (snd (fold sm_event
       [ContentDelta (js ''Once upon''), Failure (js ''boom'')]
       (sm_begin clock1 (js ''Tell me a story'') store_init)))))
     \<noteq> js ''Once upon''"
  by (simp add: sm_ContentDelta sm_Failure sm_begin_def store_init_def clock1_def
      error_text_def js_def Let_def)

text \<open>
  C5. The same image event applied twice leaves one entry in \<^verbatim>\<open>sessionImages\<close>. As
  amended: every record of type \<^verbatim>\<open>image\<close> with a \<^verbatim>\<open>url\<close> appends one entry, the url with
  the id the call tracks at that moment, to \<^verbatim>\<open>sessionImages\<close>, whatever the list holds;
  the same record applied twice appends two entries.
\<close>

theorem image_appended_every_time:
  assumes "ev_type ev = Some (js ''image'')" and "ev_url ev = Some u" and "u \<noteq> []"
  shows "sessionImages (snd (sm_event ev (v, st))) =
           sessionImages st @ [\<lparr>img_url = u, img_messageId = assistantMsgId v\<rparr>]
       \<and> sessionImages (snd (sm_event ev (sm_event ev (v, st)))) =
           sessionImages st @ [\<lparr>img_url = u, img_messageId = assistantMsgId v\<rparr>,
             \<lparr>img_url = u, img_messageId = assistantMsgId (fst (sm_event ev (v, st)))\<rparr>]"
proof -
  obtain v1 st1 where s: "sm_event ev (v, st) = (v1, st1)" by force
  show ?thesis
    using assms s sm_event_images [of ev v st] sm_event_images [of ev v1 st1] by simp
qed

text \<open>C5 at the image \<^verbatim>\<open>/img/1.png\<close>, twice.\<close>

theorem image_appended_every_time_witness:
  "sessionImages (snd (sm_event (ImageReady (js ''/img/1.png''))
       (sm_event (ImageReady (js ''/img/1.png''))
          (\<lparr>assistantContent = [], assistantMsgId = js ''assistant-2''\<rparr>, store_init)))) =
     [\<lparr>img_url = js ''/img/1.png'', img_messageId = js ''assistant-2''\<rparr>,
      \<lparr>img_url = js ''/img/1.png'', img_messageId = js ''assistant-2''\<rparr>]"
proof -
  have a: "ev_type (ImageReady (js ''/img/1.png'')) = Some (js ''image'')"
    and b: "ev_url (ImageReady (js ''/img/1.png'')) = Some (js ''/img/1.png'')"
    and c: "js ''/img/1.png'' \<noteq> []"
    by (simp_all add: ImageReady_def no_event_def js_def)
  show ?thesis
    using image_appended_every_time [OF a b c,
        of "\<lparr>assistantContent = [], assistantMsgId = js ''assistant-2''\<rparr>" store_init] c
    by (simp add: sm_ImageReady store_init_def)
qed

text \<open>
  C5, the claim as stated fails: in a turn, the same image event twice leaves two
  entries.
\<close>

theorem duplicate_image_listed_twice:
  "sessionImages (snd (fold sm_event
       [ImageReady (js ''/img/1.png''), ImageReady (js ''/img/1.png'')]
       (sm_begin clock1 (js ''draw'') store_init))) =
     [\<lparr>img_url = js ''/img/1.png'', img_messageId = js ''assistant-2''\<rparr>,
      \<lparr>img_url = js ''/img/1.png'', img_messageId = js ''assistant-2''\<rparr>]"
  by (simp add: sm_ImageReady sm_begin_def store_init_def clock1_def js_def Let_def)

text \<open>
  C6. After any deltas, a record with \<^verbatim>\<open>done\<close> and a (non-empty) \<^verbatim>\<open>processed_content\<close>
  leaves exactly that string as the content of the message, in place of the concatenated
  deltas. The record is one that reaches line 438 and carries no \<^verbatim>\<open>error\<close>: it is not a
  stage chunk or an outline.
\<close>

theorem done_processed_content_replaces:
  assumes "ev_done ev" and "ev_processed_content ev = Some p" and "p \<noteq> []"
    and "\<not> truthy (ev_error ev)"
    and "ev_type ev \<noteq> Some (js ''director_chunk'')" and "ev_type ev \<noteq> Some (js ''outline'')"
    and "ev_type ev \<noteq> Some (js ''paint_chunk'')"
  shows "m_content (last (messages (snd (fold sm_event (map ContentDelta ds @ [ev])
            (sm_begin clk content st))))) = p"
proof -
  obtain v1 st1 where d: "fold sm_event (map ContentDelta ds) (sm_begin clk content st) = (v1, st1)"
    by force
  have t: "tracked_last (v1, st1)"
    using tracked_fold [OF tracked_sm_begin, of "map ContentDelta ds" clk content st] d by simp
  have t1: "tracked_last (v1, on_stage ev st1)"
    using t by (simp add: tracked_last_def on_stage_messages)
  let ?s = "on_message_id ev (on_processed_content ev
       (on_image_url ev (on_content ev (on_image_prompt ev (v1, on_stage ev st1)))))"
  have "tracked_last ?s" by (intro tracked_steps t1)
  then have "m_content (last (messages (snd (on_done ev ?s)))) = p"
    using on_done_content assms(1-3) by blast
  then show ?thesis
    using d sm_event_late [OF assms(5-7), of v1 st1] on_error_none [OF assms(4)] by simp
qed

text \<open>C6 at the deltas \<^verbatim>\<open>Hello\<close>, \<^verbatim>\<open> world\<close> and the processed content \<^verbatim>\<open>HELLO WORLD\<close>.\<close>

theorem done_processed_content_replaces_witness:
  "m_content (last (messages (snd (fold sm_event
       (map ContentDelta [js ''Hello'', js '' world''] @ [Done (Some (js ''HELLO WORLD''))])
       (sm_begin clock1 (js ''hi'') store_init))))) = js ''HELLO WORLD''"
proof -
  have a: "ev_done (Done (Some (js ''HELLO WORLD'')))"
    and b: "ev_processed_content (Done (Some (js ''HELLO WORLD''))) = Some (js ''HELLO WORLD'')"
    and c: "js ''HELLO WORLD'' \<noteq> []"
    and d: "\<not> truthy (ev_error (Done (Some (js ''HELLO WORLD''))))"
    and e: "ev_type (Done (Some (js ''HELLO WORLD''))) \<noteq> Some (js ''director_chunk'')"
      "ev_type (Done (Some (js ''HELLO WORLD''))) \<noteq> Some (js ''outline'')"
      "ev_type (Done (Some (js ''HELLO WORLD''))) \<noteq> Some (js ''paint_chunk'')"
    by (simp_all add: Done_def no_event_def js_def)
  show ?thesis by (rule done_processed_content_replaces [OF a b c d e])
qed

text \<open>
  C7. A frame whose payload does not parse is dropped: it changes nothing and does not
  end the loop, and the frames after it are handled as usual. In both actions the loop
  over a stream leaves the state that handling the events of the payloads that parse, in
  their order, leaves; the payloads are those of the complete lines of the decoded
  stream in sendMessage, and those of the lines of each decoded chunk in
  regenerateMessage.
\<close>

theorem malformed_frames_skipped:
  "snd (sm_loop (sm_try P) chunks (sm_reader_new, s)) =
     fold sm_event
       (List.map_filter P
          (sm_payloads (butlast (split_nl (snd (decode True TextDecoder_new (concat chunks)))))))
       s
   \<and> snd (rg_loop (rg_try P) chunks (TextDecoder_new, s')) =
     fold rg_event
       (List.map_filter P
          (rg_payloads (concat (map (\<lambda>c. split_nl (snd (decode False TextDecoder_new c))) chunks))))
       s'"
  by (simp add: sm_loop_frames rg_loop_frames sm_try_fold rg_try_fold sm_frames_text rg_frames_text)

text \<open>
  C7 at a stream whose first payload is the clipped \<^verbatim>\<open>{"content": "ok"\<close> and whose second
  is a content delta \<^verbatim>\<open>ok\<close>: in both actions the loop leaves what the delta alone leaves,
  the message reads \<^verbatim>\<open>ok\<close> and \<^verbatim>\<open>isStreaming\<close> is still true.
\<close>

theorem malformed_frames_skipped_witness:
  "snd (sm_loop (sm_try wire_parse) clipped_stream
         (sm_reader_new, sm_begin clock1 (js ''hi'') store_init)) =
     sm_event (ContentDelta (js ''ok'')) (sm_begin clock1 (js ''hi'') store_init)
   \<and> map m_content (messages (snd (snd (sm_loop (sm_try wire_parse) clipped_stream
         (sm_reader_new, sm_begin clock1 (js ''hi'') store_init))))) = [js ''hi'', js ''ok'']
   \<and> isStreaming (snd (snd (sm_loop (sm_try wire_parse) clipped_stream
         (sm_reader_new, sm_begin clock1 (js ''hi'') store_init))))
   \<and> snd (rg_loop (rg_try wire_parse) clipped_stream
         (TextDecoder_new, rg_begin (js ''7'') 1
            (store_init\<lparr>messages := two_messages, isStreaming := True\<rparr>))) =
     rg_event (ContentDelta (js ''ok'')) (rg_begin (js ''7'') 1
            (store_init\<lparr>messages := two_messages, isStreaming := True\<rparr>))
   \<and> map m_content (messages (snd (snd (rg_loop (rg_try wire_parse) clipped_stream
         (TextDecoder_new, rg_begin (js ''7'') 1
            (store_init\<lparr>messages := two_messages, isStreaming := True\<rparr>)))))) = [js ''hello'', js ''ok'']
   \<and> isStreaming (snd (snd (rg_loop (rg_try wire_parse) clipped_stream
         (TextDecoder_new, rg_begin (js ''7'') 1
            (store_init\<lparr>messages := two_messages, isStreaming := True\<rparr>)))))"
proof -
  have a: "snd (sm_loop (sm_try wire_parse) clipped_stream
         (sm_reader_new, sm_begin clock1 (js ''hi'') store_init)) =
     sm_event (ContentDelta (js ''ok'')) (sm_begin clock1 (js ''hi'') store_init)"
    using malformed_frames_skipped [of wire_parse clipped_stream
        "sm_begin clock1 (js ''hi'') store_init"]
    by (simp add: clipped_payloads clipped_parse map_filter_simps)
  have b: "snd (rg_loop (rg_try wire_parse) clipped_stream
         (TextDecoder_new, rg_begin (js ''7'') 1
            (store_init\<lparr>messages := two_messages, isStreaming := True\<rparr>))) =
     rg_event (ContentDelta (js ''ok'')) (rg_begin (js ''7'') 1
            (store_init\<lparr>messages := two_messages, isStreaming := True\<rparr>))"
    using malformed_frames_skipped [of wire_parse clipped_stream _
        "rg_begin (js ''7'') 1 (store_init\<lparr>messages := two_messages, isStreaming := True\<rparr>)"]
    by (simp add: clipped_payloads clipped_parse map_filter_simps)
  have c: "map m_content (messages (snd (sm_event (ContentDelta (js ''ok''))
        (sm_begin clock1 (js ''hi'') store_init)))) = [js ''hi'', js ''ok'']"
    "isStreaming (snd (sm_event (ContentDelta (js ''ok''))
        (sm_begin clock1 (js ''hi'') store_init)))"
    by (simp_all add: sm_ContentDelta sm_begin_def store_init_def clock1_def js_def Let_def)
  have d: "map m_content (messages (snd (rg_event (ContentDelta (js ''ok'')) (rg_begin (js ''7'') 1
            (store_init\<lparr>messages := two_messages, isStreaming := True\<rparr>))))) = [js ''hello'', js ''ok'']"
    "isStreaming (snd (rg_event (ContentDelta (js ''ok'')) (rg_begin (js ''7'') 1
            (store_init\<lparr>messages := two_messages, isStreaming := True\<rparr>))))"
    by (simp_all add: rg_event_def ContentDelta_def no_event_def rg_begin_def map_at_def
        two_messages_def store_init_def js_def Let_def)
  show ?thesis using a b c d by simp
qed

text \<open>
  C8. A record of type \<^verbatim>\<open>director_chunk\<close> or \<^verbatim>\<open>paint_chunk\<close> with content appends the
  content to the accumulator of its type only, leaves the messages as they are, and is
  handled no further. As amended: for such a record with (non-empty) content the call's
  variables, the messages, the images and \<^verbatim>\<open>isStreaming\<close> stay as they are whatever else
  the record carries, and no later branch runs. The stage branch (lines 352 to 362)
  runs before: where the record names no stage, the store changes in nothing but the
  accumulator of the record's type, which grows by the content; where it names a stage,
  \<^verbatim>\<open>agentStage\<close> is set to it, and for the stage \<^verbatim>\<open>director\<close> or \<^verbatim>\<open>paint_director\<close> the
  popup of that stage is opened and its accumulator emptied, before the content is
  appended to the accumulator of the record's type.
\<close>

theorem stage_chunk_only_accumulates:
  assumes "ev_type ev = Some (js ''director_chunk'') \<or> ev_type ev = Some (js ''paint_chunk'')"
    and "ev_content ev = Some c" and "c \<noteq> []"
  shows "sm_event ev (v, st) =
           (v, st\<lparr>agentStage := (if truthy (ev_stage ev) then ev_stage ev else agentStage st),
                  showDirectorPopup := (ev_stage ev = Some (js ''director'') \<or> showDirectorPopup st),
                  showPaintDirectorPopup :=
                    (ev_stage ev = Some (js ''paint_director'') \<or> showPaintDirectorPopup st),
                  directorOutput :=
                    (if ev_stage ev = Some (js ''director'') then [] else directorOutput st)
                    @ (if ev_type ev = Some (js ''director_chunk'') then c else []),
                  paintDirectorOutput :=
                    (if ev_stage ev = Some (js ''paint_director'') then [] else paintDirectorOutput st)
                    @ (if ev_type ev = Some (js ''paint_chunk'') then c else [])\<rparr>)
       \<and> fst (sm_event ev (v, st)) = v
       \<and> messages (snd (sm_event ev (v, st))) = messages st
       \<and> sessionImages (snd (sm_event ev (v, st))) = sessionImages st
       \<and> isStreaming (snd (sm_event ev (v, st))) = isStreaming st
       \<and> (\<not> truthy (ev_stage ev) \<longrightarrow>
            snd (sm_event ev (v, st)) =
              (if ev_type ev = Some (js ''director_chunk'')
               then st\<lparr>directorOutput := directorOutput st @ c\<rparr>
               else st\<lparr>paintDirectorOutput := paintDirectorOutput st @ c\<rparr>))"
proof -
  note e = sm_event_chunk_store [OF assms, of v st]
  have k: "fst (sm_event ev (v, st)) = v" "messages (snd (sm_event ev (v, st))) = messages st"
    "sessionImages (snd (sm_event ev (v, st))) = sessionImages st"
    "isStreaming (snd (sm_event ev (v, st))) = isStreaming st"
    unfolding e by simp_all
  have l: "snd (sm_event ev (v, st)) =
              (if ev_type ev = Some (js ''director_chunk'')
               then st\<lparr>directorOutput := directorOutput st @ c\<rparr>
               else st\<lparr>paintDirectorOutput := paintDirectorOutput st @ c\<rparr>)"
    if "\<not> truthy (ev_stage ev)"
  proof (cases "ev_type ev = Some (js ''director_chunk'')")
    case True
    show ?thesis
      using sm_event_chunk(1) [OF assms(2,3) True, of v st] True on_stage_none [OF that, of st]
      by simp
  next
    case False
    then have p: "ev_type ev = Some (js ''paint_chunk'')" using assms(1) by simp
    show ?thesis
      using sm_event_chunk(2) [OF assms(2,3) p, of v st] False on_stage_none [OF that, of st]
      by simp
  qed
  show ?thesis using e k l by blast
qed

text \<open>
  C8 at a \<^verbatim>\<open>director_chunk\<close> that names the stage \<^verbatim>\<open>director\<close> and carries \<^verbatim>\<open>done\<close> and an
  error, and at a \<^verbatim>\<open>paint_chunk\<close> that carries a url, a message id, \<^verbatim>\<open>done\<close> and an
  error, in the turn that has shown \<^verbatim>\<open>Once\<close>.
\<close>

theorem stage_chunk_only_accumulates_witness:
  "sm_event (no_event\<lparr>ev_stage := Some (js ''director''), ev_type := Some (js ''director_chunk''),
                      ev_content := Some (js ''x''), ev_done := True,
                      ev_error := Some (js ''boom'')\<rparr>)
     (fst turn_A, (snd turn_A)\<lparr>directorOutput := js ''old outline ''\<rparr>) =
     (fst turn_A, (snd turn_A)\<lparr>agentStage := Some (js ''director''), showDirectorPopup := True,
                                directorOutput := js ''x''\<rparr>)
   \<and> sm_event (no_event\<lparr>ev_type := Some (js ''paint_chunk''), ev_content := Some (js ''a fox''),
                      ev_url := Some (js ''/img/1.png''), ev_message_id := Some (js ''srv-99''),
                      ev_done := True, ev_error := Some (js ''boom'')\<rparr>)
     (fst turn_A, (snd turn_A)\<lparr>paintDirectorOutput := js ''old prompt, ''\<rparr>) =
     (fst turn_A, (snd turn_A)\<lparr>paintDirectorOutput := js ''old prompt, a fox''\<rparr>)"
proof -
  let ?e1 = "no_event\<lparr>ev_stage := Some (js ''director''), ev_type := Some (js ''director_chunk''),
                      ev_content := Some (js ''x''), ev_done := True,
                      ev_error := Some (js ''boom'')\<rparr>"
  let ?e2 = "no_event\<lparr>ev_type := Some (js ''paint_chunk''), ev_content := Some (js ''a fox''),
                      ev_url := Some (js ''/img/1.png''), ev_message_id := Some (js ''srv-99''),
                      ev_done := True, ev_error := Some (js ''boom'')\<rparr>"
  have a1: "ev_type ?e1 = Some (js ''director_chunk'') \<or> ev_type ?e1 = Some (js ''paint_chunk'')"
    and b1: "ev_content ?e1 = Some (js ''x'')" and c1: "js ''x'' \<noteq> []"
    and a2: "ev_type ?e2 = Some (js ''director_chunk'') \<or> ev_type ?e2 = Some (js ''paint_chunk'')"
    and b2: "ev_content ?e2 = Some (js ''a fox'')" and c2: "js ''a fox'' \<noteq> []"
    by (simp_all add: no_event_def js_def)
  obtain ms where t: "snd turn_A =
      \<lparr>sessions = [], activeSession = None, messages = ms,
       isStreaming = True, agentStage = None, directorOutput = [], paintDirectorOutput = [],
       showDirectorPopup = False, showPaintDirectorPopup = False, sessionImages = []\<rparr>"
    by (simp add: turn_A_def sm_ContentDelta sm_begin_def store_init_def clock1_def Let_def js_def)
  have g: "ev_stage ?e1 = Some (js ''director'')" "ev_type ?e1 = Some (js ''director_chunk'')"
    "ev_stage ?e2 = None" "ev_type ?e2 = Some (js ''paint_chunk'')"
    "js ''director'' \<noteq> js ''paint_director''" "js ''director'' \<noteq> []"
    "js ''paint_chunk'' \<noteq> js ''director_chunk''"
    by (simp_all add: no_event_def js_def)
  have "sm_event ?e1 (fst turn_A, (snd turn_A)\<lparr>directorOutput := js ''old outline ''\<rparr>) =
     (fst turn_A, (snd turn_A)\<lparr>agentStage := Some (js ''director''), showDirectorPopup := True,
                                directorOutput := js ''x''\<rparr>)"
    using stage_chunk_only_accumulates [OF a1 b1 c1, of "fst turn_A"
        "(snd turn_A)\<lparr>directorOutput := js ''old outline ''\<rparr>", THEN conjunct1]
    by (simp add: g stage_names t)
  moreover have "sm_event ?e2 (fst turn_A, (snd turn_A)\<lparr>paintDirectorOutput := js ''old prompt, ''\<rparr>) =
     (fst turn_A, (snd turn_A)\<lparr>paintDirectorOutput := js ''old prompt, a fox''\<rparr>)"
    using stage_chunk_only_accumulates [OF a2 b2 c2, of "fst turn_A"
        "(snd turn_A)\<lparr>paintDirectorOutput := js ''old prompt, ''\<rparr>", THEN conjunct1]
    by (simp add: g stage_names t js_append)
  ultimately show ?thesis by simp
qed

text \<open>
  C8, the claim as stated fails: a \<^verbatim>\<open>director_chunk\<close> \<^verbatim>\<open>x\<close> that names the stage
  \<^verbatim>\<open>director\<close> leaves \<^verbatim>\<open>x\<close> in an accumulator that held \<^verbatim>\<open>old outline \<close>, and changes
  \<^verbatim>\<open>agentStage\<close> and the popup besides.
\<close>

theorem staged_chunk_resets_accumulator:
  "directorOutput (snd (sm_event
       (no_event\<lparr>ev_stage := Some (js ''director''), ev_type := Some (js ''director_chunk''),
                 ev_content := Some (js ''x'')\<rparr>)
       (fst turn_A, (snd turn_A)\<lparr>directorOutput := js ''old outline ''\<rparr>))) = js ''x''
   \<and> directorOutput (snd (sm_event
       (no_event\<lparr>ev_stage := Some (js ''director''), ev_type := Some (js ''director_chunk''),
                 ev_content := Some (js ''x'')\<rparr>)
       (fst turn_A, (snd turn_A)\<lparr>directorOutput := js ''old outline ''\<rparr>))) \<noteq> js ''old outline x''
   \<and> agentStage (snd turn_A) = None
   \<and> agentStage (snd (sm_event
       (no_event\<lparr>ev_stage := Some (js ''director''), ev_type := Some (js ''director_chunk''),
                 ev_content := Some (js ''x'')\<rparr>)
       (fst turn_A, (snd turn_A)\<lparr>directorOutput := js ''old outline ''\<rparr>))) = Some (js ''director'')
   \<and> \<not> showDirectorPopup (snd turn_A)
   \<and> showDirectorPopup (snd (sm_event
       (no_event\<lparr>ev_stage := Some (js ''director''), ev_type := Some (js ''director_chunk''),
                 ev_content := Some (js ''x'')\<rparr>)
       (fst turn_A, (snd turn_A)\<lparr>directorOutput := js ''old outline ''\<rparr>)))"
proof -
  let ?e = "no_event\<lparr>ev_stage := Some (js ''director''), ev_type := Some (js ''director_chunk''),
                 ev_content := Some (js ''x'')\<rparr>"
  have a: "ev_type ?e = Some (js ''director_chunk'') \<or> ev_type ?e = Some (js ''paint_chunk'')"
    and b: "ev_content ?e = Some (js ''x'')" and c: "js ''x'' \<noteq> []"
    and g: "ev_stage ?e = Some (js ''director'')" "ev_type ?e = Some (js ''director_chunk'')"
    by (simp_all add: no_event_def js_def)
  have f: "agentStage (snd turn_A) = None" "\<not> showDirectorPopup (snd turn_A)"
    by (simp_all add: turn_A_def sm_ContentDelta sm_begin_def store_init_def clock1_def Let_def)
  have n: "js ''x'' \<noteq> js ''old outline x''" by (simp add: js_def)
  show ?thesis
    unfolding sm_event_chunk_store [OF a b c] using f n by (simp add: g stage_names)
qed

text \<open>
  C9. In sendMessage the deltas accumulate in \<^verbatim>\<open>assistantContent\<close>, not in the
  message: a \<^verbatim>\<open>processed_content\<close> event replaces the content of the message, and a
  delta that follows sets it to all the deltas received so far, the earlier ones
  included, so that the processed text is gone.
\<close>

theorem delta_after_processed_restores_deltas:
  assumes "p \<noteq> []" and "c \<noteq> []"
  shows "m_content (last (messages (snd (fold sm_event (map ContentDelta ds @ [PostProcessed p])
            (sm_begin clk content st))))) = p
       \<and> m_content (last (messages (snd (fold sm_event
            (map ContentDelta ds @ [PostProcessed p, ContentDelta c])
            (sm_begin clk content st))))) = concat ds @ c"
proof -
  obtain v0 st0 where b: "sm_begin clk content st = (v0, st0)" by force
  have i: "messages st0 \<noteq> []" "m_id (last (messages st0)) = assistantMsgId v0"
    "m_content (last (messages st0)) = assistantContent v0" and z: "assistantContent v0 = []"
    using sm_begin_last [of clk content st] b by simp_all
  obtain v1 st1 where d: "fold sm_event (map ContentDelta ds) (v0, st0) = (v1, st1)" by force
  have j: "v1 = v0\<lparr>assistantContent := concat ds\<rparr>" "messages st1 \<noteq> []"
    "m_id (last (messages st1)) = assistantMsgId v1"
    using sm_deltas [OF i, of ds] d z by simp_all
  show ?thesis
    using assms b d j by (simp add: sm_PostProcessed sm_ContentDelta last_map)
qed

text \<open>
  C9 at the deltas \<^verbatim>\<open>Hello\<close>, \<^verbatim>\<open> world\<close>, the processed content \<^verbatim>\<open>HELLO WORLD\<close> and the
  delta \<^verbatim>\<open>!\<close>.
\<close>

theorem delta_after_processed_restores_deltas_witness:
  "m_content (last (messages (snd (fold sm_event
       (map ContentDelta [js ''Hello'', js '' world''] @ [PostProcessed (js ''HELLO WORLD'')])
       (sm_begin clock1 (js ''hi'') store_init))))) = js ''HELLO WORLD''
   \<and> m_content (last (messages (snd (fold sm_event
       (map ContentDelta [js ''Hello'', js '' world'']
          @ [PostProcessed (js ''HELLO WORLD''), ContentDelta (js ''!'')])
       (sm_begin clock1 (js ''hi'') store_init))))) = js ''Hello world!''"
proof -
  have a: "js ''HELLO WORLD'' \<noteq> []" and b: "js ''!'' \<noteq> []"
    by (simp_all add: js_def)
  show ?thesis
    using delta_after_processed_restores_deltas [OF a b,
        of "[js ''Hello'', js '' world'']" clock1 "js ''hi''" store_init]
    by (simp add: js_def)
qed

text \<open>
  C10. regenerateMessage with no active session, with no message id (or an empty one),
  or with an id that no message of the list carries, sends no request and returns the
  store as it was.
\<close>

theorem regenerate_guard_no_effect:
  assumes "activeSession st = None \<or> messageId = None \<or> messageId = Some []
           \<or> (\<exists>i. messageId = Some i \<and> i \<notin> set (map m_id (messages st)))"
  shows "regenerateMessage P now messageId f st = (st, [])"
proof (cases "activeSession st = None \<or> \<not> truthy messageId")
  case True
  then show ?thesis by (simp add: regenerateMessage_def)
next
  case False
  then obtain i where i: "messageId = Some i" "i \<notin> set (map m_id (messages st))"
    using assms by (cases messageId) auto
  then have "findIndex (\<lambda>m. m_id m = the messageId) (messages st) = None"
    by (auto simp: findIndex_None)
  then show ?thesis by (simp add: regenerateMessage_def)
qed

text \<open>
  C10 at a store with an active session and two messages, for an id that is not in the
  list, for no id, and with the session taken away.
\<close>

theorem regenerate_guard_no_effect_witness:
  "(\<forall>P now f. regenerateMessage P now (Some (js ''zz'')) f
        (store_init\<lparr>activeSession := Some \<lparr>s_id = js ''s1''\<rparr>, messages := two_messages\<rparr>) =
      (store_init\<lparr>activeSession := Some \<lparr>s_id = js ''s1''\<rparr>, messages := two_messages\<rparr>, []))
   \<and> (\<forall>P now f. regenerateMessage P now None f
        (store_init\<lparr>activeSession := Some \<lparr>s_id = js ''s1''\<rparr>, messages := two_messages\<rparr>) =
      (store_init\<lparr>activeSession := Some \<lparr>s_id = js ''s1''\<rparr>, messages := two_messages\<rparr>, []))
   \<and> (\<forall>P now f. regenerateMessage P now (Some (js ''a1'')) f
        (store_init\<lparr>messages := two_messages\<rparr>) = (store_init\<lparr>messages := two_messages\<rparr>, []))"
proof -
  let ?st = "store_init\<lparr>activeSession := Some \<lparr>s_id = js ''s1''\<rparr>, messages := two_messages\<rparr>"
  have a: "activeSession ?st = None \<or> Some (js ''zz'') = None \<or> Some (js ''zz'') = Some []
           \<or> (\<exists>i. Some (js ''zz'') = Some i \<and> i \<notin> set (map m_id (messages ?st)))"
    by (simp add: two_messages_def js_def)
  have b: "activeSession ?st = None \<or> (None :: jsstring option) = None \<or> None = Some []
           \<or> (\<exists>i. None = Some i \<and> i \<notin> set (map m_id (messages ?st)))"
    by simp
  have c: "activeSession (store_init\<lparr>messages := two_messages\<rparr>) = None
           \<or> Some (js ''a1'') = None \<or> Some (js ''a1'') = Some []
           \<or> (\<exists>i. Some (js ''a1'') = Some i
                \<and> i \<notin> set (map m_id (messages (store_init\<lparr>messages := two_messages\<rparr>))))"
    by (simp add: store_init_def)
  show ?thesis
    using regenerate_guard_no_effect [OF a] regenerate_guard_no_effect [OF b]
      regenerate_guard_no_effect [OF c]
    by simp
qed

end
